theory Spec2Isabelle
  imports Main "HOL-Library.Stream" "HOL-Library.Word"
begin

section \<open>Treap nodes\<close>

text \<open>
  \<^verbatim>\<open>struct Node { Key key; Value value; int priority; Node *left, *right; }\<close>

  Every node is owned by exactly one parent slot (or by the root slot), so a subtree is a
  value of a datatype; \<open>Nullptr\<close> is the empty slot. \<open>Key\<close> is \<open>int\<close> and the
  priority is the \<open>int\<close> that \<open>rand()\<close> returned; the code only compares them, so they
  are mathematical integers here. The node of \<open>TreapSet\<close> has no \<open>value\<close> field: it is
  a node whose value has type \<open>unit\<close>.
\<close>

datatype 'v node =
    Nullptr
  | Node (left: "'v node") (key: int) (val: 'v) (priority: int) (right: "'v node")

text \<open>
  \<open>rand()\<close> reads and advances a global generator. Its state is the stream of the
  values it is still going to return: a call returns the head and leaves the tail.
\<close>

type_synonym rand_state = "int stream"

section \<open>Rotations (the same text in both classes)\<close>

text \<open>
  \<open>rotateRight(y)\<close> reads \<open>y->left\<close> and then \<open>x->right\<close> with no check: on a null
  \<open>y\<close> or a null \<open>y->left\<close> it dereferences a null pointer, which is \<open>None\<close> here.
\<close>

fun rotateRight :: "'v node \<Rightarrow> 'v node option" where
  "rotateRight (Node (Node t1 xk xv xp t2) yk yv yp t3) =
     Some (Node t1 xk xv xp (Node t2 yk yv yp t3))"
| "rotateRight (Node Nullptr yk yv yp t3) = None"
| "rotateRight Nullptr = None"

fun rotateLeft :: "'v node \<Rightarrow> 'v node option" where
  "rotateLeft (Node t1 xk xv xp (Node t2 yk yv yp t3)) =
     Some (Node (Node t1 xk xv xp t2) yk yv yp t3)"
| "rotateLeft (Node t1 xk xv xp Nullptr) = None"
| "rotateLeft Nullptr = None"

section \<open>TreapMap\<close>

text \<open>
  \<open>insertRecursive(node, key, value)\<close> returns the new top of the subtree; the caller
  stores it in its slot. \<open>new Node(key, value)\<close> draws the priority from \<open>rand()\<close>.
\<close>

fun TreapMap_insertRecursive ::
  "'v node \<Rightarrow> int \<Rightarrow> 'v \<Rightarrow> rand_state \<Rightarrow> ('v node \<times> rand_state) option" where
  "TreapMap_insertRecursive Nullptr k v rng =
     Some (Node Nullptr k v (shd rng) Nullptr, stl rng)"
| "TreapMap_insertRecursive (Node l nk nv np r) k v rng =
     (if k < nk then
        (case TreapMap_insertRecursive l k v rng of
           None \<Rightarrow> None
         | Some (l', rng') \<Rightarrow>
             if l' \<noteq> Nullptr \<and> priority l' > np
             then map_option (\<lambda>n. (n, rng')) (rotateRight (Node l' nk nv np r))
             else Some (Node l' nk nv np r, rng'))
      else if k > nk then
        (case TreapMap_insertRecursive r k v rng of
           None \<Rightarrow> None
         | Some (r', rng') \<Rightarrow>
             if r' \<noteq> Nullptr \<and> priority r' > np
             then map_option (\<lambda>n. (n, rng')) (rotateLeft (Node l nk nv np r'))
             else Some (Node l nk nv np r', rng'))
      else Some (Node l nk v np r, rng))"

text \<open>
  \<open>removeRecursive(node, key)\<close>. In the two-child case the node is rotated below one
  of its children and the call continues in the subtree that now holds it, which is not a
  part of the argument: the recursion is not structural.
\<close>

function TreapMap_removeRecursive :: "'v node \<Rightarrow> int \<Rightarrow> 'v node option" where
  "TreapMap_removeRecursive Nullptr k = Some Nullptr"
| "TreapMap_removeRecursive (Node l nk nv np r) k =
     (if k < nk then
        (case TreapMap_removeRecursive l k of
           None \<Rightarrow> None
         | Some l' \<Rightarrow> Some (Node l' nk nv np r))
      else if k > nk then
        (case TreapMap_removeRecursive r k of
           None \<Rightarrow> None
         | Some r' \<Rightarrow> Some (Node l nk nv np r'))
      else if l = Nullptr then Some r
      else if r = Nullptr then Some l
      else if priority l > priority r then
        (case rotateRight (Node l nk nv np r) of
           None \<Rightarrow> None
         | Some Nullptr \<Rightarrow> None
         | Some (Node a xk xv xp b) \<Rightarrow>
             (case TreapMap_removeRecursive b k of
                None \<Rightarrow> None
              | Some b' \<Rightarrow> Some (Node a xk xv xp b')))
      else
        (case rotateLeft (Node l nk nv np r) of
           None \<Rightarrow> None
         | Some Nullptr \<Rightarrow> None
         | Some (Node a yk yv yp b) \<Rightarrow>
             (case TreapMap_removeRecursive a k of
                None \<Rightarrow> None
              | Some a' \<Rightarrow> Some (Node a' yk yv yp b))))"
  by pat_completeness auto
termination
proof (relation "measure (\<lambda>(t, k). size t)", goal_cases)
  case 1
  show ?case by simp
next
  case (2 l nk nv np r k)
  show ?case by simp
next
  case (3 l nk nv np r k)
  show ?case by simp
next
  case (4 l nk nv np r k x2 a xk xv xp b)
  then show ?case by (cases l) auto
next
  case (5 l nk nv np r k x2 a yk yv yp b)
  then show ?case by (cases r) auto
qed

fun findNode :: "'v node \<Rightarrow> int \<Rightarrow> 'v node" where
  "findNode Nullptr k = Nullptr"
| "findNode (Node l nk nv np r) k =
     (if k = nk then Node l nk nv np r
      else if k < nk then findNode l k
      else findNode r k)"

text \<open>
  The class has one field, \<open>root\<close>. \<open>clearRecursive\<close> and \<open>delete\<close> release nodes
  that are unreachable from then on; they have no counterpart on values. \<open>find\<close> and
  \<open>contains\<close> assign nothing: they are functions of the object and return no new one.
\<close>

record 'v TreapMap =
  map_root :: "'v node"

definition TreapMap_new :: "'v TreapMap" where
  "TreapMap_new = \<lparr>map_root = Nullptr\<rparr>"

definition TreapMap_clear :: "'v TreapMap \<Rightarrow> 'v TreapMap" where
  "TreapMap_clear m = m\<lparr>map_root := Nullptr\<rparr>"

definition TreapMap_insert ::
  "int \<Rightarrow> 'v \<Rightarrow> 'v TreapMap \<times> rand_state \<Rightarrow> ('v TreapMap \<times> rand_state) option" where
  "TreapMap_insert k v w =
     (case w of (m, rng) \<Rightarrow>
        (case TreapMap_insertRecursive (map_root m) k v rng of
           None \<Rightarrow> None
         | Some (n, rng') \<Rightarrow> Some (m\<lparr>map_root := n\<rparr>, rng')))"

definition TreapMap_remove :: "int \<Rightarrow> 'v TreapMap \<Rightarrow> 'v TreapMap option" where
  "TreapMap_remove k m =
     (case TreapMap_removeRecursive (map_root m) k of
        None \<Rightarrow> None
      | Some n \<Rightarrow> Some (m\<lparr>map_root := n\<rparr>))"

definition TreapMap_find :: "'v TreapMap \<Rightarrow> int \<Rightarrow> 'v \<Rightarrow> 'v" where
  "TreapMap_find m k defaultValue =
     (case findNode (map_root m) k of
        Nullptr \<Rightarrow> defaultValue
      | Node l nk nv np r \<Rightarrow> nv)"

definition TreapMap_contains :: "'v TreapMap \<Rightarrow> int \<Rightarrow> bool" where
  "TreapMap_contains m k = (findNode (map_root m) k \<noteq> Nullptr)"

section \<open>TreapSet\<close>

text \<open>
  The recursive helpers of \<open>TreapSet\<close> also update the field \<open>nodeCount\<close>; it is passed
  in and returned. \<open>nodeCount\<close> is a C \<open>int\<close>, 32 bits wide, changed by \<open>nodeCount++\<close>
  and \<open>nodeCount--\<close>: it is a \<open>32 word\<close>, on which \<open>+\<close> and \<open>-\<close> wrap around as the
  machine instruction does (the language leaves the overflow of a signed \<open>int\<close> undefined),
  and \<open>size()\<close> reads it as a two's-complement number.
\<close>

fun TreapSet_insertRecursive ::
  "unit node \<Rightarrow> int \<Rightarrow> 32 word \<times> rand_state \<Rightarrow> (unit node \<times> 32 word \<times> rand_state) option" where
  "TreapSet_insertRecursive Nullptr k (cnt, rng) =
     Some (Node Nullptr k () (shd rng) Nullptr, cnt + 1, stl rng)"
| "TreapSet_insertRecursive (Node l nk () np r) k (cnt, rng) =
     (if k < nk then
        (case TreapSet_insertRecursive l k (cnt, rng) of
           None \<Rightarrow> None
         | Some (l', st') \<Rightarrow>
             if l' \<noteq> Nullptr \<and> priority l' > np
             then map_option (\<lambda>n. (n, st')) (rotateRight (Node l' nk () np r))
             else Some (Node l' nk () np r, st'))
      else if k > nk then
        (case TreapSet_insertRecursive r k (cnt, rng) of
           None \<Rightarrow> None
         | Some (r', st') \<Rightarrow>
             if r' \<noteq> Nullptr \<and> priority r' > np
             then map_option (\<lambda>n. (n, st')) (rotateLeft (Node l nk () np r'))
             else Some (Node l nk () np r', st'))
      else Some (Node l nk () np r, cnt, rng))"

function TreapSet_removeRecursive ::
  "unit node \<Rightarrow> int \<Rightarrow> 32 word \<Rightarrow> (unit node \<times> 32 word) option" where
  "TreapSet_removeRecursive Nullptr k cnt = Some (Nullptr, cnt)"
| "TreapSet_removeRecursive (Node l nk () np r) k cnt =
     (if k < nk then
        (case TreapSet_removeRecursive l k cnt of
           None \<Rightarrow> None
         | Some (l', cnt') \<Rightarrow> Some (Node l' nk () np r, cnt'))
      else if k > nk then
        (case TreapSet_removeRecursive r k cnt of
           None \<Rightarrow> None
         | Some (r', cnt') \<Rightarrow> Some (Node l nk () np r', cnt'))
      else if l = Nullptr then Some (r, cnt - 1)
      else if r = Nullptr then Some (l, cnt - 1)
      else if priority l > priority r then
        (case rotateRight (Node l nk () np r) of
           None \<Rightarrow> None
         | Some Nullptr \<Rightarrow> None
         | Some (Node a xk xv xp b) \<Rightarrow>
             (case TreapSet_removeRecursive b k cnt of
                None \<Rightarrow> None
              | Some (b', cnt') \<Rightarrow> Some (Node a xk xv xp b', cnt')))
      else
        (case rotateLeft (Node l nk () np r) of
           None \<Rightarrow> None
         | Some Nullptr \<Rightarrow> None
         | Some (Node a yk yv yp b) \<Rightarrow>
             (case TreapSet_removeRecursive a k cnt of
                None \<Rightarrow> None
              | Some (a', cnt') \<Rightarrow> Some (Node a' yk yv yp b, cnt'))))"
  by pat_completeness auto
termination
proof (relation "measure (\<lambda>(t, k, cnt). size t)", goal_cases)
  case 1
  show ?case by simp
next
  case (2 l nk np r k cnt)
  show ?case by simp
next
  case (3 l nk np r k cnt)
  show ?case by simp
next
  case (4 l nk np r k cnt x2 a xk xv xp b)
  then show ?case by (cases l) auto
next
  case (5 l nk np r k cnt x2 a yk yv yp b)
  then show ?case by (cases r) auto
qed

fun memberRecursive :: "unit node \<Rightarrow> int \<Rightarrow> bool" where
  "memberRecursive Nullptr k = False"
| "memberRecursive (Node l nk () np r) k =
     (if k = nk then True
      else if k < nk then memberRecursive l k
      else memberRecursive r k)"

record TreapSet =
  set_root :: "unit node"
  nodeCount :: "32 word"

definition TreapSet_new :: TreapSet where
  "TreapSet_new = \<lparr>set_root = Nullptr, nodeCount = 0\<rparr>"

definition TreapSet_clear :: "TreapSet \<Rightarrow> TreapSet" where
  "TreapSet_clear s = s\<lparr>set_root := Nullptr, nodeCount := 0\<rparr>"

definition TreapSet_size :: "TreapSet \<Rightarrow> int" where
  "TreapSet_size s = sint (nodeCount s)"

definition TreapSet_member :: "TreapSet \<Rightarrow> int \<Rightarrow> bool" where
  "TreapSet_member s k = memberRecursive (set_root s) k"

definition TreapSet_insert ::
  "int \<Rightarrow> TreapSet \<times> rand_state \<Rightarrow> (TreapSet \<times> rand_state) option" where
  "TreapSet_insert k w =
     (case w of (s, rng) \<Rightarrow>
        if \<not> TreapSet_member s k then
          (case TreapSet_insertRecursive (set_root s) k (nodeCount s, rng) of
             None \<Rightarrow> None
           | Some (n, cnt, rng') \<Rightarrow> Some (s\<lparr>set_root := n, nodeCount := cnt\<rparr>, rng'))
        else Some (s, rng))"

definition TreapSet_remove :: "int \<Rightarrow> TreapSet \<Rightarrow> TreapSet option" where
  "TreapSet_remove k s =
     (if TreapSet_member s k then
        (case TreapSet_removeRecursive (set_root s) k (nodeCount s) of
           None \<Rightarrow> None
         | Some (n, cnt) \<Rightarrow> Some (s\<lparr>set_root := n, nodeCount := cnt\<rparr>))
      else Some s)"

section \<open>Sequences of public operations\<close>

text \<open>
  A client holds one object and calls its public mutators one after another. A run starts
  from the constructor's state and some state of the generator; it is \<open>None\<close> when a
  call dereferences a null pointer.
\<close>

datatype set_op = Set_insert int | Set_remove int | Set_clear

fun TreapSet_step :: "set_op \<Rightarrow> TreapSet \<times> rand_state \<Rightarrow> (TreapSet \<times> rand_state) option" where
  "TreapSet_step (Set_insert k) (s, rng) = TreapSet_insert k (s, rng)"
| "TreapSet_step (Set_remove k) (s, rng) = map_option (\<lambda>s'. (s', rng)) (TreapSet_remove k s)"
| "TreapSet_step Set_clear (s, rng) = Some (TreapSet_clear s, rng)"

fun TreapSet_run :: "set_op list \<Rightarrow> TreapSet \<times> rand_state \<Rightarrow> (TreapSet \<times> rand_state) option" where
  "TreapSet_run [] w = Some w"
| "TreapSet_run (c # cs) w =
     (case TreapSet_step c w of None \<Rightarrow> None | Some w' \<Rightarrow> TreapSet_run cs w')"

datatype 'v map_op = Map_insert int 'v | Map_remove int | Map_clear

fun TreapMap_step ::
  "'v map_op \<Rightarrow> 'v TreapMap \<times> rand_state \<Rightarrow> ('v TreapMap \<times> rand_state) option" where
  "TreapMap_step (Map_insert k v) (m, rng) = TreapMap_insert k v (m, rng)"
| "TreapMap_step (Map_remove k) (m, rng) = map_option (\<lambda>m'. (m', rng)) (TreapMap_remove k m)"
| "TreapMap_step Map_clear (m, rng) = Some (TreapMap_clear m, rng)"

fun TreapMap_run ::
  "'v map_op list \<Rightarrow> 'v TreapMap \<times> rand_state \<Rightarrow> ('v TreapMap \<times> rand_state) option" where
  "TreapMap_run [] w = Some w"
| "TreapMap_run (c # cs) w =
     (case TreapMap_step c w of None \<Rightarrow> None | Some w' \<Rightarrow> TreapMap_run cs w')"

section \<open>What is observed of a tree\<close>

text \<open>The keys, and the key-value pairs, met by an in-order traversal.\<close>

fun inorder :: "'v node \<Rightarrow> int list" where
  "inorder Nullptr = []"
| "inorder (Node l k v p r) = inorder l @ k # inorder r"

fun bindings :: "'v node \<Rightarrow> (int \<times> 'v) list" where
  "bindings Nullptr = []"
| "bindings (Node l k v p r) = bindings l @ (k, v) # bindings r"

fun priorities :: "'v node \<Rightarrow> int list" where
  "priorities Nullptr = []"
| "priorities (Node l k v p r) = priorities l @ p # priorities r"

text \<open>The number of nodes that can be reached from a root, and the height.\<close>

fun count_nodes :: "'v node \<Rightarrow> nat" where
  "count_nodes Nullptr = 0"
| "count_nodes (Node l k v p r) = count_nodes l + 1 + count_nodes r"

fun height :: "'v node \<Rightarrow> nat" where
  "height Nullptr = 0"
| "height (Node l k v p r) = 1 + max (height l) (height r)"

text \<open>
  The max-heap order on priorities, once with the strict comparison and once with the
  comparison that admits equal priorities.
\<close>

fun heap_strict :: "'v node \<Rightarrow> bool" where
  "heap_strict Nullptr = True"
| "heap_strict (Node l k v p r) =
     ((l = Nullptr \<or> priority l < p) \<and> (r = Nullptr \<or> priority r < p)
      \<and> heap_strict l \<and> heap_strict r)"

fun max_heap :: "'v node \<Rightarrow> bool" where
  "max_heap Nullptr = True"
| "max_heap (Node l k v p r) =
     ((l = Nullptr \<or> priority l \<le> p) \<and> (r = Nullptr \<or> priority r \<le> p)
      \<and> max_heap l \<and> max_heap r)"

text \<open>The two structural invariants together, and the one of \<open>TreapSet\<close> with its counter.\<close>

definition treap :: "'v node \<Rightarrow> bool" where
  "treap t \<longleftrightarrow> sorted_wrt (<) (inorder t) \<and> max_heap t"

definition TreapSet_invar :: "TreapSet \<Rightarrow> bool" where
  "TreapSet_invar s \<longleftrightarrow> treap (set_root s) \<and> nodeCount s = of_nat (count_nodes (set_root s))"

text \<open>The tree with its values forgotten: shape, keys and priorities.\<close>

definition skeleton :: "'v node \<Rightarrow> unit node" where
  "skeleton t = map_node (\<lambda>_. ()) t"

section \<open>The cost of a removal\<close>

text \<open>
  The number of invocations of \<open>removeRecursive\<close> that one call causes, itself included.
  The recursion is the one of \<open>removeRecursive\<close> in both classes.
\<close>

function removeRecursive_calls :: "'v node \<Rightarrow> int \<Rightarrow> nat" where
  "removeRecursive_calls Nullptr k = 1"
| "removeRecursive_calls (Node l nk nv np r) k =
     (if k < nk then 1 + removeRecursive_calls l k
      else if k > nk then 1 + removeRecursive_calls r k
      else if l = Nullptr then 1
      else if r = Nullptr then 1
      else if priority l > priority r then
        (case rotateRight (Node l nk nv np r) of
           None \<Rightarrow> 1
         | Some Nullptr \<Rightarrow> 1
         | Some (Node a xk xv xp b) \<Rightarrow> 1 + removeRecursive_calls b k)
      else
        (case rotateLeft (Node l nk nv np r) of
           None \<Rightarrow> 1
         | Some Nullptr \<Rightarrow> 1
         | Some (Node a yk yv yp b) \<Rightarrow> 1 + removeRecursive_calls a k))"
  by pat_completeness auto
termination
proof (relation "measure (\<lambda>(t, k). size t)", goal_cases)
  case 1
  show ?case by simp
next
  case (2 l nk nv np r k)
  show ?case by simp
next
  case (3 l nk nv np r k)
  show ?case by simp
next
  case (4 l nk nv np r k x2 a xk xv xp b)
  then show ?case by (cases l) auto
next
  case (5 l nk nv np r k x2 a yk yv yp b)
  then show ?case by (cases r) auto
qed

text \<open>
  The depth of the node that holds a key: the number of edges from the root along the
  search path, \<open>None\<close> when the search ends in an empty slot.
\<close>

fun depth_of :: "'v node \<Rightarrow> int \<Rightarrow> nat option" where
  "depth_of Nullptr k = None"
| "depth_of (Node l nk nv np r) k =
     (if k = nk then Some 0
      else if k < nk then map_option Suc (depth_of l k)
      else map_option Suc (depth_of r k))"

text \<open>The lengths of the rightmost and of the leftmost path of a tree.\<close>

fun right_spine :: "'v node \<Rightarrow> nat" where
  "right_spine Nullptr = 0"
| "right_spine (Node l k v p r) = 1 + right_spine r"

fun left_spine :: "'v node \<Rightarrow> nat" where
  "left_spine Nullptr = 0"
| "left_spine (Node l k v p r) = 1 + left_spine l"

section \<open>The contents a client expects\<close>

text \<open>
  The set of keys, and the finite map, that a sequence of calls describes, with no tree
  involved.
\<close>

fun set_contents :: "set_op list \<Rightarrow> int set \<Rightarrow> int set" where
  "set_contents [] A = A"
| "set_contents (Set_insert k # cs) A = set_contents cs (insert k A)"
| "set_contents (Set_remove k # cs) A = set_contents cs (A - {k})"
| "set_contents (Set_clear # cs) A = set_contents cs {}"

fun map_contents :: "'v map_op list \<Rightarrow> (int \<rightharpoonup> 'v) \<Rightarrow> (int \<rightharpoonup> 'v)" where
  "map_contents [] f = f"
| "map_contents (Map_insert k v # cs) f = map_contents cs (f(k \<mapsto> v))"
| "map_contents (Map_remove k # cs) f = map_contents cs (f(k := None))"
| "map_contents (Map_clear # cs) f = map_contents cs Map.empty"

section \<open>Auxiliary facts\<close>

lemma rotateRight_Some:
  "rotateRight t = Some t' \<longleftrightarrow> (\<exists>t1 xk xv xp t2 yk yv yp t3.
     t = Node (Node t1 xk xv xp t2) yk yv yp t3 \<and> t' = Node t1 xk xv xp (Node t2 yk yv yp t3))"
  by (induction t rule: rotateRight.induct) auto

lemma rotateLeft_Some:
  "rotateLeft t = Some t' \<longleftrightarrow> (\<exists>t1 xk xv xp t2 yk yv yp t3.
     t = Node t1 xk xv xp (Node t2 yk yv yp t3) \<and> t' = Node (Node t1 xk xv xp t2) yk yv yp t3)"
  by (induction t rule: rotateLeft.induct) auto

lemma ins_left_cases:
  assumes "k < nk" and "TreapMap_insertRecursive (Node l nk nv np r) k v rng = Some (t', rng')"
  obtains (keep) l' where "TreapMap_insertRecursive l k v rng = Some (l', rng')"
      and "t' = Node l' nk nv np r" and "l' = Nullptr \<or> priority l' \<le> np"
    | (rot) a xk xv xp b where
        "TreapMap_insertRecursive l k v rng = Some (Node a xk xv xp b, rng')"
      and "np < xp" and "t' = Node a xk xv xp (Node b nk nv np r)"
  using assms
  by (auto split: option.splits if_splits simp: rotateRight_Some)

lemma ins_right_cases:
  assumes "nk < k" and "TreapMap_insertRecursive (Node l nk nv np r) k v rng = Some (t', rng')"
  obtains (keep) r' where "TreapMap_insertRecursive r k v rng = Some (r', rng')"
      and "t' = Node l nk nv np r'" and "r' = Nullptr \<or> priority r' \<le> np"
    | (rot) a yk yv yp b where
        "TreapMap_insertRecursive r k v rng = Some (Node a yk yv yp b, rng')"
      and "np < yp" and "t' = Node (Node l nk nv np a) yk yv yp b"
  using assms
  by (auto split: option.splits if_splits simp: rotateLeft_Some)

lemma ins_eq_case:
  "TreapMap_insertRecursive (Node l nk nv np r) nk v rng = Some (Node l nk v np r, rng)"
  by simp

lemma ins_left_obs:
  assumes "k < nk" and "TreapMap_insertRecursive (Node l nk nv np r) k v rng = Some (t', rng')"
  shows "\<exists>l'. TreapMap_insertRecursive l k v rng = Some (l', rng')
     \<and> inorder t' = inorder l' @ nk # inorder r
     \<and> bindings t' = bindings l' @ (nk, nv) # bindings r
     \<and> count_nodes t' = count_nodes l' + 1 + count_nodes r"
  using assms by (cases rule: ins_left_cases) auto

lemma ins_right_obs:
  assumes "nk < k" and "TreapMap_insertRecursive (Node l nk nv np r) k v rng = Some (t', rng')"
  shows "\<exists>r'. TreapMap_insertRecursive r k v rng = Some (r', rng')
     \<and> inorder t' = inorder l @ nk # inorder r'
     \<and> bindings t' = bindings l @ (nk, nv) # bindings r'
     \<and> count_nodes t' = count_nodes l + 1 + count_nodes r'"
  using assms by (cases rule: ins_right_cases) auto

lemma ins_inorder_set:
  "TreapMap_insertRecursive t k v rng = Some (t', rng') \<Longrightarrow>
     set (inorder t') = insert k (set (inorder t))"
proof (induction t arbitrary: t' rng')
  case Nullptr
  then show ?case by auto
next
  case (Node l nk nv np r)
  consider "k < nk" | "nk < k" | "k = nk" by linarith
  then show ?case
  proof cases
    case 1
    from ins_left_obs[OF 1 Node.prems] obtain l' where
      l': "TreapMap_insertRecursive l k v rng = Some (l', rng')"
       "inorder t' = inorder l' @ nk # inorder r" by blast
    with Node.IH(1)[OF l'(1)] show ?thesis by auto
  next
    case 2
    from ins_right_obs[OF 2 Node.prems] obtain r' where
      r': "TreapMap_insertRecursive r k v rng = Some (r', rng')"
       "inorder t' = inorder l @ nk # inorder r'" by blast
    with Node.IH(2)[OF r'(1)] show ?thesis by auto
  next
    case 3
    with Node.prems show ?thesis by auto
  qed
qed

lemma ins_sorted:
  "TreapMap_insertRecursive t k v rng = Some (t', rng') \<Longrightarrow>
     sorted_wrt (<) (inorder t) \<Longrightarrow> sorted_wrt (<) (inorder t')"
proof (induction t arbitrary: t' rng')
  case Nullptr
  then show ?case by auto
next
  case (Node l nk nv np r)
  from Node.prems(2) have sl: "sorted_wrt (<) (inorder l)" and sr: "sorted_wrt (<) (inorder r)"
    and ll: "\<forall>x\<in>set (inorder l). x < nk" and rr: "\<forall>x\<in>set (inorder r). nk < x"
    and lr: "\<forall>x\<in>set (inorder l). \<forall>y\<in>set (inorder r). x < y"
    by (auto simp: sorted_wrt_append)
  consider "k < nk" | "nk < k" | "k = nk" by linarith
  then show ?case
  proof cases
    case 1
    from ins_left_obs[OF 1 Node.prems(1)] obtain l' where
      l': "TreapMap_insertRecursive l k v rng = Some (l', rng')"
       "inorder t' = inorder l' @ nk # inorder r" by blast
    have "\<forall>y\<in>set (inorder r). k < y" using rr 1 by auto
    with Node.IH(1)[OF l'(1) sl] ins_inorder_set[OF l'(1)] 1 ll rr lr sr l'(2)
    show ?thesis by (auto simp: sorted_wrt_append)
  next
    case 2
    from ins_right_obs[OF 2 Node.prems(1)] obtain r' where
      r': "TreapMap_insertRecursive r k v rng = Some (r', rng')"
       "inorder t' = inorder l @ nk # inorder r'" by blast
    have "\<forall>y\<in>set (inorder l). y < k" using ll 2 by auto
    with Node.IH(2)[OF r'(1) sr] ins_inorder_set[OF r'(1)] 2 ll rr lr sl r'(2)
    show ?thesis by (auto simp: sorted_wrt_append)
  next
    case 3
    with Node.prems show ?thesis by auto
  qed
qed

lemma max_heap_bound:
  "max_heap t \<Longrightarrow> t \<noteq> Nullptr \<Longrightarrow> \<forall>q\<in>set (priorities t). q \<le> priority t"
proof (induction t)
  case Nullptr
  then show ?case by simp
next
  case (Node l k v p r)
  have "\<forall>q\<in>set (priorities l). q \<le> p"
  proof (cases "l = Nullptr")
    case True
    then show ?thesis by simp
  next
    case False
    with Node.prems(1) have "max_heap l" "priority l \<le> p" by simp_all
    with Node.IH(1) False show ?thesis by fastforce
  qed
  moreover have "\<forall>q\<in>set (priorities r). q \<le> p"
  proof (cases "r = Nullptr")
    case True
    then show ?thesis by simp
  next
    case False
    with Node.prems(1) have "max_heap r" "priority r \<le> p" by simp_all
    with Node.IH(2) False show ?thesis by fastforce
  qed
  ultimately show ?case by auto
qed

lemma max_heap_root:
  "max_heap (Node l k v p r) \<Longrightarrow> \<forall>q\<in>set (priorities (Node l k v p r)). q \<le> p"
  using max_heap_bound[of "Node l k v p r"] by simp

lemma max_heap_NodeI:
  "max_heap l \<Longrightarrow> max_heap r \<Longrightarrow> \<forall>q\<in>set (priorities l). q \<le> p \<Longrightarrow>
   \<forall>q\<in>set (priorities r). q \<le> p \<Longrightarrow> max_heap (Node l k v p r)"
  by (cases l; cases r) simp_all

lemma max_heap_Node_iff:
  "max_heap (Node l k v p r) \<longleftrightarrow>
     max_heap l \<and> max_heap r \<and> (\<forall>q\<in>set (priorities l). q \<le> p) \<and> (\<forall>q\<in>set (priorities r). q \<le> p)"
  (is "?L \<longleftrightarrow> ?R")
proof
  assume h: ?L
  then have "max_heap l" "max_heap r" by simp_all
  moreover from max_heap_root[OF h]
  have "\<forall>q\<in>set (priorities l). q \<le> p" "\<forall>q\<in>set (priorities r). q \<le> p" by auto
  ultimately show ?R by blast
next
  assume ?R
  then show ?L by (intro max_heap_NodeI) blast+
qed

lemma ins_root_above:
  "TreapMap_insertRecursive t k v rng = Some (Node a xk xv xp b, rng') \<Longrightarrow>
   \<forall>p\<in>set (priorities t). p \<le> q \<Longrightarrow> q < xp \<Longrightarrow>
   (\<forall>p\<in>set (priorities a). p \<le> q) \<and> (\<forall>p\<in>set (priorities b). p \<le> q)"
proof (induction t arbitrary: a xk xv xp b rng')
  case Nullptr
  then show ?case by auto
next
  case (Node l nk nv np r)
  consider "k < nk" | "nk < k" | "k = nk" by linarith
  then show ?case
  proof cases
    case 1
    from 1 Node.prems(1) show ?thesis
    proof (cases rule: ins_left_cases)
      case (keep l')
      with Node.prems(2,3) show ?thesis by auto
    next
      case (rot a' xk' xv' xp' b')
      with Node.IH(1)[OF rot(1)] Node.prems(2,3) show ?thesis by auto
    qed
  next
    case 2
    from 2 Node.prems(1) show ?thesis
    proof (cases rule: ins_right_cases)
      case (keep r')
      with Node.prems(2,3) show ?thesis by auto
    next
      case (rot a' xk' xv' xp' b')
      with Node.IH(2)[OF rot(1)] Node.prems(2,3) show ?thesis by auto
    qed
  next
    case 3
    with Node.prems show ?thesis by auto
  qed
qed

lemma ins_max_heap:
  "TreapMap_insertRecursive t k v rng = Some (t', rng') \<Longrightarrow> max_heap t \<Longrightarrow> max_heap t'"
proof (induction t arbitrary: t' rng')
  case Nullptr
  then show ?case by auto
next
  case (Node l nk nv np r)
  from Node.prems(2) have hl: "max_heap l" and hr: "max_heap r"
    and pl: "\<forall>q\<in>set (priorities l). q \<le> np" and pr: "\<forall>q\<in>set (priorities r). q \<le> np"
    using max_heap_Node_iff[of l nk nv np r] by blast+
  consider "k < nk" | "nk < k" | "k = nk" by linarith
  then show ?case
  proof cases
    case 1
    from 1 Node.prems(1) show ?thesis
    proof (cases rule: ins_left_cases)
      case (keep l')
      from Node.IH(1)[OF keep(1) hl] keep(2,3) Node.prems(2) show ?thesis by auto
    next
      case (rot a xk xv xp b)
      have h: "max_heap (Node a xk xv xp b)" by (rule Node.IH(1)[OF rot(1) hl])
      from ins_root_above[OF rot(1) pl rot(2)]
      have ab: "\<forall>p\<in>set (priorities a). p \<le> np" "\<forall>p\<in>set (priorities b). p \<le> np" by auto
      have "max_heap (Node b nk nv np r)"
        using h hr ab pr by (simp add: max_heap_Node_iff del: max_heap.simps)
      moreover have "\<forall>q\<in>set (priorities (Node b nk nv np r)). q \<le> xp"
        using ab pr rot(2) by auto
      ultimately show ?thesis using h rot(3) by (simp add: max_heap_Node_iff del: max_heap.simps)
    qed
  next
    case 2
    from 2 Node.prems(1) show ?thesis
    proof (cases rule: ins_right_cases)
      case (keep r')
      from Node.IH(2)[OF keep(1) hr] keep(2,3) Node.prems(2) show ?thesis by auto
    next
      case (rot a xk xv xp b)
      have h: "max_heap (Node a xk xv xp b)" by (rule Node.IH(2)[OF rot(1) hr])
      from ins_root_above[OF rot(1) pr rot(2)]
      have ab: "\<forall>p\<in>set (priorities a). p \<le> np" "\<forall>p\<in>set (priorities b). p \<le> np" by auto
      have "max_heap (Node l nk nv np a)"
        using h hl ab pl by (simp add: max_heap_Node_iff del: max_heap.simps)
      moreover have "\<forall>q\<in>set (priorities (Node l nk nv np a)). q \<le> xp"
        using ab pl rot(2) by auto
      ultimately show ?thesis using h rot(3) by (simp add: max_heap_Node_iff del: max_heap.simps)
    qed
  next
    case 3
    with Node.prems show ?thesis by auto
  qed
qed

lemma rem_less:
  "k < nk \<Longrightarrow> TreapMap_removeRecursive (Node l nk nv np r) k =
     (case TreapMap_removeRecursive l k of None \<Rightarrow> None | Some l' \<Rightarrow> Some (Node l' nk nv np r))"
  by simp

lemma rem_greater:
  "nk < k \<Longrightarrow> TreapMap_removeRecursive (Node l nk nv np r) k =
     (case TreapMap_removeRecursive r k of None \<Rightarrow> None | Some r' \<Rightarrow> Some (Node l nk nv np r'))"
  by simp

lemma rem_no_left: "TreapMap_removeRecursive (Node Nullptr k nv np r) k = Some r"
  by simp

lemma rem_no_right: "l \<noteq> Nullptr \<Longrightarrow> TreapMap_removeRecursive (Node l k nv np Nullptr) k = Some l"
  by simp

lemma rem_rot_right:
  "yp < xp \<Longrightarrow>
   TreapMap_removeRecursive (Node (Node t1 xk xv xp t2) k nv np (Node c yk yv yp d)) k =
     (case TreapMap_removeRecursive (Node t2 k nv np (Node c yk yv yp d)) k of
        None \<Rightarrow> None | Some b' \<Rightarrow> Some (Node t1 xk xv xp b'))"
  by (subst TreapMap_removeRecursive.simps) simp

lemma rem_rot_left:
  "\<not> yp < xp \<Longrightarrow>
   TreapMap_removeRecursive (Node (Node t1 xk xv xp t2) k nv np (Node c yk yv yp d)) k =
     (case TreapMap_removeRecursive (Node (Node t1 xk xv xp t2) k nv np c) k of
        None \<Rightarrow> None | Some a' \<Rightarrow> Some (Node a' yk yv yp d))"
  by (subst TreapMap_removeRecursive.simps) simp

lemma rem_induct [case_names Null Less Greater NoLeft NoRight RotRight RotLeft]:
  assumes "\<And>k. P Nullptr k"
    and "\<And>l nk nv np r k. k < nk \<Longrightarrow> P l k \<Longrightarrow> P (Node l nk nv np r) k"
    and "\<And>l nk nv np r k. nk < k \<Longrightarrow> P r k \<Longrightarrow> P (Node l nk nv np r) k"
    and "\<And>k nv np r. P (Node Nullptr k nv np r) k"
    and "\<And>l k nv np. l \<noteq> Nullptr \<Longrightarrow> P (Node l k nv np Nullptr) k"
    and "\<And>t1 xk xv xp t2 k nv np c yk yv yp d. yp < xp \<Longrightarrow>
           P (Node t2 k nv np (Node c yk yv yp d)) k \<Longrightarrow>
           P (Node (Node t1 xk xv xp t2) k nv np (Node c yk yv yp d)) k"
    and "\<And>t1 xk xv xp t2 k nv np c yk yv yp d. \<not> yp < xp \<Longrightarrow>
           P (Node (Node t1 xk xv xp t2) k nv np c) k \<Longrightarrow>
           P (Node (Node t1 xk xv xp t2) k nv np (Node c yk yv yp d)) k"
  shows "P t k"
proof (induction t k rule: TreapMap_removeRecursive.induct)
  case (1 k)
  show ?case by (rule assms(1))
next
  case (2 l nk nv np r k)
  consider "k < nk" | "nk < k" | "k = nk" by linarith
  then show ?case
  proof cases
    case 1
    with 2(1) assms(2) show ?thesis by blast
  next
    case 2
    with "2.IH"(2) assms(3) show ?thesis by force
  next
    case 3
    show ?thesis
    proof (cases l)
      case Nullptr
      with 3 assms(4) show ?thesis by simp
    next
      case L: (Node t1 xk xv xp t2)
      show ?thesis
      proof (cases r)
        case Nullptr
        with 3 L assms(5)[of l] show ?thesis by simp
      next
        case R: (Node c yk yv yp d)
        show ?thesis
        proof (cases "yp < xp")
          case True
          have "P (Node t2 nk nv np r) k"
            using "2.IH"(3)[of "Node t1 xk xv xp (Node t2 nk nv np r)" t1 xk xv xp "Node t2 nk nv np r"]
              3 L R True by simp
          with assms(6)[OF True] 3 L R show ?thesis by simp
        next
          case False
          have "P (Node l nk nv np c) k"
            using "2.IH"(4)[of "Node (Node l nk nv np c) yk yv yp d" "Node l nk nv np c" yk yv yp d]
              3 L R False by simp
          with assms(7)[OF False] 3 L R show ?thesis by simp
        qed
      qed
    qed
  qed
qed

lemma rem_total: "\<exists>t'. TreapMap_removeRecursive t k = Some t'"
proof (induction t k rule: rem_induct)
  case (RotRight t1 xk xv xp t2 k nv np c yk yv yp d)
  then show ?case by (auto simp: rem_rot_right simp del: TreapMap_removeRecursive.simps)
next
  case (RotLeft t1 xk xv xp t2 k nv np c yk yv yp d)
  then show ?case by (auto simp: rem_rot_left simp del: TreapMap_removeRecursive.simps)
qed auto

declare TreapMap_removeRecursive.simps [simp del]

lemmas rem_simps = TreapMap_removeRecursive.simps(1) rem_less rem_greater rem_no_left rem_no_right
  rem_rot_right rem_rot_left

lemma inorder_bindings: "inorder t = map fst (bindings t)"
  by (induction t) auto

lemma count_nodes_inorder: "count_nodes t = length (inorder t)"
  by (induction t) auto

lemma rem_priorities:
  "TreapMap_removeRecursive t k = Some t' \<Longrightarrow>
   set (priorities t') \<subseteq>
     (case t of Nullptr \<Rightarrow> {}
      | Node l nk nv np r \<Rightarrow>
          if nk = k then set (priorities l) \<union> set (priorities r) else set (priorities t))"
proof (induction t k arbitrary: t' rule: rem_induct)
  case (Null k)
  then show ?case by (simp add: rem_simps)
next
  case (Less l nk nv np r k)
  from Less.prems Less.hyps obtain l' where l': "TreapMap_removeRecursive l k = Some l'"
    and t': "t' = Node l' nk nv np r"
    by (auto simp: rem_simps split: option.splits)
  from Less.IH[OF l'] have "set (priorities l') \<subseteq> set (priorities l)"
    by (cases l) (auto split: if_splits)
  with t' Less.hyps show ?case by auto
next
  case (Greater l nk nv np r k)
  from Greater.prems Greater.hyps obtain r' where r': "TreapMap_removeRecursive r k = Some r'"
    and t': "t' = Node l nk nv np r'"
    by (auto simp: rem_simps split: option.splits)
  from Greater.IH[OF r'] have "set (priorities r') \<subseteq> set (priorities r)"
    by (cases r) (auto split: if_splits)
  with t' Greater.hyps show ?case by auto
next
  case (NoLeft k nv np r)
  then show ?case by (simp add: rem_simps)
next
  case (NoRight l k nv np)
  then show ?case by (simp add: rem_simps)
next
  case (RotRight t1 xk xv xp t2 k nv np c yk yv yp d)
  from RotRight.prems RotRight.hyps obtain b' where
    b': "TreapMap_removeRecursive (Node t2 k nv np (Node c yk yv yp d)) k = Some b'"
    and t': "t' = Node t1 xk xv xp b'"
    by (auto simp: rem_simps split: option.splits)
  from RotRight.IH[OF b'] t' show ?case by auto
next
  case (RotLeft t1 xk xv xp t2 k nv np c yk yv yp d)
  from RotLeft.prems RotLeft.hyps obtain a' where
    a': "TreapMap_removeRecursive (Node (Node t1 xk xv xp t2) k nv np c) k = Some a'"
    and t': "t' = Node a' yk yv yp d"
    by (auto simp: rem_simps split: option.splits)
  from RotLeft.IH[OF a'] t' show ?case by auto
qed

lemma rem_max_heap:
  "TreapMap_removeRecursive t k = Some t' \<Longrightarrow> max_heap t \<Longrightarrow> max_heap t'"
proof (induction t k arbitrary: t' rule: rem_induct)
  case (Null k)
  then show ?case by (simp add: rem_simps)
next
  case (Less l nk nv np r k)
  from Less.prems(1) Less.hyps obtain l' where l': "TreapMap_removeRecursive l k = Some l'"
    and t': "t' = Node l' nk nv np r"
    by (auto simp: rem_simps split: option.splits)
  from rem_priorities[OF l'] have "set (priorities l') \<subseteq> set (priorities l)"
    by (cases l) (auto split: if_splits)
  moreover from Less.prems(2) have "max_heap l" "max_heap r"
    "\<forall>q\<in>set (priorities l). q \<le> np" "\<forall>q\<in>set (priorities r). q \<le> np"
    using max_heap_Node_iff[of l nk nv np r] by blast+
  ultimately show ?case using Less.IH[OF l'] t' max_heap_Node_iff[of l' nk nv np r] by blast
next
  case (Greater l nk nv np r k)
  from Greater.prems(1) Greater.hyps obtain r' where r': "TreapMap_removeRecursive r k = Some r'"
    and t': "t' = Node l nk nv np r'"
    by (auto simp: rem_simps split: option.splits)
  from rem_priorities[OF r'] have "set (priorities r') \<subseteq> set (priorities r)"
    by (cases r) (auto split: if_splits)
  moreover from Greater.prems(2) have "max_heap l" "max_heap r"
    "\<forall>q\<in>set (priorities l). q \<le> np" "\<forall>q\<in>set (priorities r). q \<le> np"
    using max_heap_Node_iff[of l nk nv np r] by blast+
  ultimately show ?case using Greater.IH[OF r'] t' max_heap_Node_iff[of l nk nv np r'] by blast
next
  case (NoLeft k nv np r)
  then show ?case by (simp add: rem_simps)
next
  case (NoRight l k nv np)
  then show ?case by (simp add: rem_simps)
next
  case (RotRight t1 xk xv xp t2 k nv np c yk yv yp d)
  let ?R = "Node c yk yv yp d"
  from RotRight.prems(1) RotRight.hyps obtain b' where
    b': "TreapMap_removeRecursive (Node t2 k nv np ?R) k = Some b'"
    and t': "t' = Node t1 xk xv xp b'"
    by (auto simp: rem_simps split: option.splits)
  from RotRight.prems(2) have hL: "max_heap (Node t1 xk xv xp t2)" and hR: "max_heap ?R"
    and pL: "\<forall>q\<in>set (priorities (Node t1 xk xv xp t2)). q \<le> np"
    and pR: "\<forall>q\<in>set (priorities ?R). q \<le> np"
    using max_heap_Node_iff[of "Node t1 xk xv xp t2" k nv np ?R] by blast+
  from hL have h1: "max_heap t1" and h2: "max_heap t2"
    and p1: "\<forall>q\<in>set (priorities t1). q \<le> xp" and p2: "\<forall>q\<in>set (priorities t2). q \<le> xp"
    using max_heap_Node_iff[of t1 xk xv xp t2] by blast+
  from pL have p2': "\<forall>q\<in>set (priorities t2). q \<le> np" by simp
  have "max_heap (Node t2 k nv np ?R)"
    using h2 hR p2' pR max_heap_Node_iff[of t2 k nv np ?R] by blast
  then have hb: "max_heap b'" by (rule RotRight.IH[OF b'])
  from rem_priorities[OF b'] have sb: "set (priorities b') \<subseteq> set (priorities t2) \<union> set (priorities ?R)"
    by simp
  from max_heap_root[OF hR] RotRight.hyps have "\<forall>q\<in>set (priorities ?R). q \<le> xp" by fastforce
  with sb p2 have "\<forall>q\<in>set (priorities b'). q \<le> xp" by blast
  with h1 hb p1 t' show ?case using max_heap_Node_iff[of t1 xk xv xp b'] by blast
next
  case (RotLeft t1 xk xv xp t2 k nv np c yk yv yp d)
  let ?L = "Node t1 xk xv xp t2"
  from RotLeft.prems(1) RotLeft.hyps obtain a' where
    a': "TreapMap_removeRecursive (Node ?L k nv np c) k = Some a'"
    and t': "t' = Node a' yk yv yp d"
    by (auto simp: rem_simps split: option.splits)
  from RotLeft.prems(2) have hL: "max_heap ?L" and hR: "max_heap (Node c yk yv yp d)"
    and pL: "\<forall>q\<in>set (priorities ?L). q \<le> np"
    and pR: "\<forall>q\<in>set (priorities (Node c yk yv yp d)). q \<le> np"
    using max_heap_Node_iff[of ?L k nv np "Node c yk yv yp d"] by blast+
  from hR have h1: "max_heap c" and h2: "max_heap d"
    and p1: "\<forall>q\<in>set (priorities c). q \<le> yp" and p2: "\<forall>q\<in>set (priorities d). q \<le> yp"
    using max_heap_Node_iff[of c yk yv yp d] by blast+
  from pR have p1': "\<forall>q\<in>set (priorities c). q \<le> np" by simp
  have "max_heap (Node ?L k nv np c)"
    using h1 hL p1' pL max_heap_Node_iff[of ?L k nv np c] by blast
  then have ha: "max_heap a'" by (rule RotLeft.IH[OF a'])
  from rem_priorities[OF a'] have sa: "set (priorities a') \<subseteq> set (priorities ?L) \<union> set (priorities c)"
    by simp
  from max_heap_root[OF hL] RotLeft.hyps have "\<forall>q\<in>set (priorities ?L). q \<le> yp" by fastforce
  with sa p1 have "\<forall>q\<in>set (priorities a'). q \<le> yp" by blast
  with h2 ha p2 t' show ?case using max_heap_Node_iff[of a' yk yv yp d] by blast
qed

lemma sorted_bindings_Node:
  "sorted_wrt (<) (inorder (Node l k v p r)) \<Longrightarrow>
     sorted_wrt (<) (inorder l) \<and> sorted_wrt (<) (inorder r)
     \<and> (\<forall>x\<in>set (bindings l). fst x < k) \<and> (\<forall>x\<in>set (bindings r). k < fst x)"
  by (auto simp: sorted_wrt_append inorder_bindings)

lemma filter_bindings_id:
  "\<forall>x\<in>set xs. fst x \<noteq> (k::int) \<Longrightarrow> filter (\<lambda>x. fst x \<noteq> k) xs = xs"
  by (induction xs) auto

lemma rem_bindings:
  "TreapMap_removeRecursive t k = Some t' \<Longrightarrow> sorted_wrt (<) (inorder t) \<Longrightarrow>
   bindings t' = filter (\<lambda>x. fst x \<noteq> k) (bindings t)"
proof (induction t k arbitrary: t' rule: rem_induct)
  case (Null k)
  then show ?case by (simp add: rem_simps)
next
  case (Less l nk nv np r k)
  from Less.prems(1) Less.hyps obtain l' where l': "TreapMap_removeRecursive l k = Some l'"
    and t': "t' = Node l' nk nv np r"
    by (auto simp: rem_simps split: option.splits)
  from sorted_bindings_Node[OF Less.prems(2)] have sl: "sorted_wrt (<) (inorder l)"
    and rr: "\<forall>x\<in>set (bindings r). nk < fst x" by blast+
  from rr Less.hyps have "filter (\<lambda>x. fst x \<noteq> k) (bindings r) = bindings r"
    by (intro filter_bindings_id) auto
  with Less.IH[OF l' sl] t' Less.hyps show ?case by simp
next
  case (Greater l nk nv np r k)
  from Greater.prems(1) Greater.hyps obtain r' where r': "TreapMap_removeRecursive r k = Some r'"
    and t': "t' = Node l nk nv np r'"
    by (auto simp: rem_simps split: option.splits)
  from sorted_bindings_Node[OF Greater.prems(2)] have sr: "sorted_wrt (<) (inorder r)"
    and ll: "\<forall>x\<in>set (bindings l). fst x < nk" by blast+
  from ll Greater.hyps have "filter (\<lambda>x. fst x \<noteq> k) (bindings l) = bindings l"
    by (intro filter_bindings_id) auto
  with Greater.IH[OF r' sr] t' Greater.hyps show ?case by simp
next
  case (NoLeft k nv np r)
  from sorted_bindings_Node[OF NoLeft.prems(2)]
  have "filter (\<lambda>x. fst x \<noteq> k) (bindings r) = bindings r"
    by (intro filter_bindings_id) auto
  with NoLeft.prems(1) show ?case by (simp add: rem_simps)
next
  case (NoRight l k nv np)
  from sorted_bindings_Node[OF NoRight.prems(2)]
  have "filter (\<lambda>x. fst x \<noteq> k) (bindings l) = bindings l"
    by (intro filter_bindings_id) auto
  with NoRight.prems(1) NoRight.hyps show ?case by (simp add: rem_simps)
next
  case (RotRight t1 xk xv xp t2 k nv np c yk yv yp d)
  let ?R = "Node c yk yv yp d"
  from RotRight.prems(1) RotRight.hyps obtain b' where
    b': "TreapMap_removeRecursive (Node t2 k nv np ?R) k = Some b'"
    and t': "t' = Node t1 xk xv xp b'"
    by (auto simp: rem_simps split: option.splits)
  from sorted_bindings_Node[OF RotRight.prems(2)]
  have sL: "sorted_wrt (<) (inorder (Node t1 xk xv xp t2))" and sR: "sorted_wrt (<) (inorder ?R)"
    and ll: "\<forall>x\<in>set (bindings (Node t1 xk xv xp t2)). fst x < k"
    and rr: "\<forall>x\<in>set (bindings ?R). k < fst x" by blast+
  from sorted_bindings_Node[OF sL] have s2: "sorted_wrt (<) (inorder t2)" by blast
  have "sorted_wrt (<) (inorder (Node t2 k nv np ?R))"
    using RotRight.prems(2) by (simp add: sorted_wrt_append)
  from RotRight.IH[OF b' this]
  have "bindings b' = filter (\<lambda>x. fst x \<noteq> k) (bindings (Node t2 k nv np ?R))" .
  moreover from ll have "filter (\<lambda>x. fst x \<noteq> k) (bindings t1) = bindings t1" "xk \<noteq> k"
    by (auto intro!: filter_bindings_id)
  ultimately show ?case using t' by simp
next
  case (RotLeft t1 xk xv xp t2 k nv np c yk yv yp d)
  let ?L = "Node t1 xk xv xp t2"
  from RotLeft.prems(1) RotLeft.hyps obtain a' where
    a': "TreapMap_removeRecursive (Node ?L k nv np c) k = Some a'"
    and t': "t' = Node a' yk yv yp d"
    by (auto simp: rem_simps split: option.splits)
  from sorted_bindings_Node[OF RotLeft.prems(2)]
  have rr: "\<forall>x\<in>set (bindings (Node c yk yv yp d)). k < fst x" by blast
  have "sorted_wrt (<) (inorder (Node ?L k nv np c))"
    using RotLeft.prems(2) by (auto simp: sorted_wrt_append)
  from RotLeft.IH[OF a' this]
  have "bindings a' = filter (\<lambda>x. fst x \<noteq> k) (bindings (Node ?L k nv np c))" .
  moreover from rr have "filter (\<lambda>x. fst x \<noteq> k) (bindings d) = bindings d" "yk \<noteq> k"
    by (auto intro!: filter_bindings_id)
  ultimately show ?case using t' by simp
qed

lemma rem_inorder:
  "TreapMap_removeRecursive t k = Some t' \<Longrightarrow> sorted_wrt (<) (inorder t) \<Longrightarrow>
   inorder t' = filter (\<lambda>x. x \<noteq> k) (inorder t)"
  using rem_bindings[of t k t'] by (simp add: inorder_bindings filter_map comp_def)

lemma rem_sorted:
  "TreapMap_removeRecursive t k = Some t' \<Longrightarrow> sorted_wrt (<) (inorder t) \<Longrightarrow>
   sorted_wrt (<) (inorder t')"
  using rem_inorder[of t k t'] by (simp add: sorted_wrt_filter)

lemma map_of_filter_key:
  "map_of (filter (\<lambda>x. fst x \<noteq> k) xs) = (map_of xs)(k := None)"
  by (induction xs) (auto simp: fun_eq_iff)

lemma ins_bindings:
  "TreapMap_insertRecursive t k v rng = Some (t', rng') \<Longrightarrow> sorted_wrt (<) (inorder t) \<Longrightarrow>
   map_of (bindings t') = (map_of (bindings t))(k \<mapsto> v)"
proof (induction t arbitrary: t' rng')
  case Nullptr
  then show ?case by auto
next
  case (Node l nk nv np r)
  from sorted_bindings_Node[OF Node.prems(2)]
  have sl: "sorted_wrt (<) (inorder l)" and sr: "sorted_wrt (<) (inorder r)"
    and ll: "\<forall>x\<in>set (bindings l). fst x < nk" and rr: "\<forall>x\<in>set (bindings r). nk < fst x"
    by blast+
  consider "k < nk" | "nk < k" | "k = nk" by linarith
  then show ?case
  proof cases
    case 1
    from ins_left_obs[OF 1 Node.prems(1)] obtain l' where
      l': "TreapMap_insertRecursive l k v rng = Some (l', rng')"
       "bindings t' = bindings l' @ (nk, nv) # bindings r" by blast
    from Node.IH(1)[OF l'(1) sl] l'(2) show ?thesis
      by (simp add: fun_eq_iff map_add_def)
  next
    case 2
    from ins_right_obs[OF 2 Node.prems(1)] obtain r' where
      r': "TreapMap_insertRecursive r k v rng = Some (r', rng')"
       "bindings t' = bindings l @ (nk, nv) # bindings r'" by blast
    from ll 2 have "k \<notin> fst ` set (bindings l)" by auto
    then have "map_of (bindings l) k = None" by (simp add: map_of_eq_None_iff)
    with Node.IH(2)[OF r'(1) sr] r'(2) 2 show ?thesis
      by (auto simp: fun_eq_iff map_add_def split: option.splits)
  next
    case 3
    from ll 3 have "k \<notin> fst ` set (bindings l)" by auto
    then have "map_of (bindings l) k = None" by (simp add: map_of_eq_None_iff)
    with 3 Node.prems(1) show ?thesis
      by (auto simp: fun_eq_iff map_add_def split: option.splits)
  qed
qed

lemma findNode_map_of:
  "sorted_wrt (<) (inorder t) \<Longrightarrow>
   (case findNode t k of Nullptr \<Rightarrow> None | Node l nk nv np r \<Rightarrow> Some nv) = map_of (bindings t) k"
proof (induction t)
  case Nullptr
  show ?case by simp
next
  case (Node l nk nv np r)
  from sorted_bindings_Node[OF Node.prems]
  have sl: "sorted_wrt (<) (inorder l)" and sr: "sorted_wrt (<) (inorder r)"
    and ll: "\<forall>x\<in>set (bindings l). fst x < nk" and rr: "\<forall>x\<in>set (bindings r). nk < fst x"
    by blast+
  consider "k < nk" | "nk < k" | "k = nk" by linarith
  then show ?case
  proof cases
    case 1
    from rr 1 have "k \<notin> fst ` set (bindings r)" by auto
    then have "map_of (bindings r) k = None" by (simp add: map_of_eq_None_iff)
    with Node.IH(1)[OF sl] 1 show ?thesis
      by (auto simp: map_add_def split: option.splits)
  next
    case 2
    from ll 2 have "k \<notin> fst ` set (bindings l)" by auto
    then have "map_of (bindings l) k = None" by (simp add: map_of_eq_None_iff)
    with Node.IH(2)[OF sr] 2 show ?thesis
      by (auto simp: map_add_def split: option.splits)
  next
    case 3
    from ll 3 have "k \<notin> fst ` set (bindings l)" by auto
    then have "map_of (bindings l) k = None" by (simp add: map_of_eq_None_iff)
    with 3 show ?thesis
      by (auto simp: map_add_def split: option.splits)
  qed
qed

lemma findNode_keys:
  assumes "sorted_wrt (<) (inorder t)"
  shows "findNode t k \<noteq> Nullptr \<longleftrightarrow> k \<in> set (inorder t)"
proof -
  have "findNode t k \<noteq> Nullptr \<longleftrightarrow> map_of (bindings t) k \<noteq> None"
    using findNode_map_of[OF assms, of k, symmetric] by (cases "findNode t k") simp_all
  then show ?thesis by (simp add: inorder_bindings map_of_eq_None_iff)
qed

lemma ins_count_nodes:
  "TreapMap_insertRecursive t k v rng = Some (t', rng') \<Longrightarrow>
   count_nodes t' = (if findNode t k = Nullptr then count_nodes t + 1 else count_nodes t)"
proof (induction t arbitrary: t' rng')
  case Nullptr
  then show ?case by auto
next
  case (Node l nk nv np r)
  consider "k < nk" | "nk < k" | "k = nk" by linarith
  then show ?case
  proof cases
    case 1
    from ins_left_obs[OF 1 Node.prems] obtain l' where
      l': "TreapMap_insertRecursive l k v rng = Some (l', rng')"
       "count_nodes t' = count_nodes l' + 1 + count_nodes r" by blast
    with Node.IH(1)[OF l'(1)] 1 show ?thesis by simp
  next
    case 2
    from ins_right_obs[OF 2 Node.prems] obtain r' where
      r': "TreapMap_insertRecursive r k v rng = Some (r', rng')"
       "count_nodes t' = count_nodes l + 1 + count_nodes r'" by blast
    with Node.IH(2)[OF r'(1)] 2 show ?thesis by simp
  next
    case 3
    with Node.prems show ?thesis by auto
  qed
qed

lemma rem_count_nodes:
  "TreapMap_removeRecursive t k = Some t' \<Longrightarrow>
   count_nodes t' + (if findNode t k = Nullptr then 0 else 1) = count_nodes t"
proof (induction t k arbitrary: t' rule: rem_induct)
  case (RotRight t1 xk xv xp t2 k nv np c yk yv yp d)
  from RotRight.prems RotRight.hyps obtain b' where
    b': "TreapMap_removeRecursive (Node t2 k nv np (Node c yk yv yp d)) k = Some b'"
    and t': "t' = Node t1 xk xv xp b'"
    by (auto simp: rem_simps split: option.splits)
  from RotRight.IH[OF b'] t' show ?case by simp
next
  case (RotLeft t1 xk xv xp t2 k nv np c yk yv yp d)
  from RotLeft.prems RotLeft.hyps obtain a' where
    a': "TreapMap_removeRecursive (Node (Node t1 xk xv xp t2) k nv np c) k = Some a'"
    and t': "t' = Node a' yk yv yp d"
    by (auto simp: rem_simps split: option.splits)
  from RotLeft.IH[OF a'] t' show ?case by simp
qed (auto simp: rem_simps split: option.splits)


lemma member_findNode: "memberRecursive t k \<longleftrightarrow> findNode t k \<noteq> Nullptr"
  by (induction t) auto

lemma set_ins_map_ins:
  "TreapSet_insertRecursive t k (cnt, rng) =
     (case TreapMap_insertRecursive t k () rng of
        None \<Rightarrow> None
      | Some (t', rng') \<Rightarrow> Some (t', if findNode t k = Nullptr then cnt + 1 else cnt, rng'))"
proof (induction t)
  case Nullptr
  show ?case by simp
next
  case (Node l nk nv np r)
  consider "k < nk" | "nk < k" | "k = nk" by linarith
  then show ?case
  proof cases
    case 1
    with Node.IH(1) show ?thesis
      by (cases "TreapMap_insertRecursive l k () rng") (auto split: option.splits)
  next
    case 2
    with Node.IH(2) show ?thesis
      by (cases "TreapMap_insertRecursive r k () rng") (auto split: option.splits)
  next
    case 3
    then show ?thesis by simp
  qed
qed

lemma set_rem_rot_right:
  "yp < xp \<Longrightarrow>
   TreapSet_removeRecursive (Node (Node t1 xk () xp t2) k () np (Node c yk () yp d)) k cnt =
     (case TreapSet_removeRecursive (Node t2 k () np (Node c yk () yp d)) k cnt of
        None \<Rightarrow> None | Some (b', cnt') \<Rightarrow> Some (Node t1 xk () xp b', cnt'))"
  by (subst TreapSet_removeRecursive.simps) simp

lemma set_rem_rot_left:
  "\<not> yp < xp \<Longrightarrow>
   TreapSet_removeRecursive (Node (Node t1 xk () xp t2) k () np (Node c yk () yp d)) k cnt =
     (case TreapSet_removeRecursive (Node (Node t1 xk () xp t2) k () np c) k cnt of
        None \<Rightarrow> None | Some (a', cnt') \<Rightarrow> Some (Node a' yk () yp d, cnt'))"
  by (subst TreapSet_removeRecursive.simps) simp

lemma set_rem_map_rem:
  "TreapSet_removeRecursive t k cnt =
     (case TreapMap_removeRecursive t k of
        None \<Rightarrow> None
      | Some t' \<Rightarrow> Some (t', if findNode t k = Nullptr then cnt else cnt - 1))"
proof (induction t k rule: rem_induct)
  case (RotRight t1 xk xv xp t2 k nv np c yk yv yp d)
  then show ?case
    by (simp add: set_rem_rot_right rem_rot_right del: TreapSet_removeRecursive.simps
        split: option.splits)
next
  case (RotLeft t1 xk xv xp t2 k nv np c yk yv yp d)
  then show ?case
    by (simp add: set_rem_rot_left rem_rot_left del: TreapSet_removeRecursive.simps
        split: option.splits)
qed (auto simp: rem_simps split: option.splits)

lemma ins_total:
  "\<exists>t'. TreapMap_insertRecursive t k v rng =
     Some (t', if findNode t k = Nullptr then stl rng else rng) \<and> t' \<noteq> Nullptr"
proof (induction t)
  case Nullptr
  show ?case by simp
next
  case (Node l nk nv np r)
  consider "k < nk" | "nk < k" | "k = nk" by linarith
  then show ?case
  proof cases
    case 1
    from Node.IH(1) obtain l' where
      l': "TreapMap_insertRecursive l k v rng = Some (l', if findNode l k = Nullptr then stl rng else rng)"
      "l' \<noteq> Nullptr" by blast
    then show ?thesis using 1 by (cases l') auto
  next
    case 2
    from Node.IH(2) obtain r' where
      r': "TreapMap_insertRecursive r k v rng = Some (r', if findNode r k = Nullptr then stl rng else rng)"
      "r' \<noteq> Nullptr" by blast
    then show ?thesis using 2 by (cases r') auto
  next
    case 3
    then show ?thesis by simp
  qed
qed

lemma treap_Nullptr: "treap Nullptr"
  by (simp add: treap_def)

lemma ins_treap:
  "TreapMap_insertRecursive t k v rng = Some (t', rng') \<Longrightarrow> treap t \<Longrightarrow> treap t'"
  by (auto simp: treap_def dest: ins_sorted ins_max_heap)

lemma rem_treap:
  "TreapMap_removeRecursive t k = Some t' \<Longrightarrow> treap t \<Longrightarrow> treap t'"
  by (auto simp: treap_def dest: rem_sorted rem_max_heap)

lemma TreapMap_insert_ok:
  assumes "treap (map_root m)"
  shows "\<exists>m'. TreapMap_insert k v (m, rng) =
           Some (m', if TreapMap_contains m k then rng else stl rng)
         \<and> treap (map_root m')
         \<and> map_of (bindings (map_root m')) = (map_of (bindings (map_root m)))(k \<mapsto> v)"
proof -
  from ins_total[of "map_root m" k v rng] obtain t' where
    t': "TreapMap_insertRecursive (map_root m) k v rng =
          Some (t', if findNode (map_root m) k = Nullptr then stl rng else rng)" by blast
  from ins_treap[OF t' assms] ins_bindings[OF t'] assms t'
  show ?thesis by (auto simp: TreapMap_insert_def TreapMap_contains_def treap_def)
qed

lemma TreapMap_remove_ok:
  assumes "treap (map_root m)"
  shows "\<exists>m'. TreapMap_remove k m = Some m'
         \<and> treap (map_root m')
         \<and> bindings (map_root m') = filter (\<lambda>x. fst x \<noteq> k) (bindings (map_root m))"
proof -
  from rem_total[of "map_root m" k] obtain t' where
    t': "TreapMap_removeRecursive (map_root m) k = Some t'" by blast
  from rem_treap[OF t' assms] rem_bindings[OF t'] assms t'
  show ?thesis by (auto simp: TreapMap_remove_def treap_def)
qed

lemma TreapMap_step_ok:
  assumes "treap (map_root m)"
  shows "\<exists>m' rng'. TreapMap_step c (m, rng) = Some (m', rng')
         \<and> treap (map_root m')
         \<and> map_of (bindings (map_root m')) = map_contents [c] (map_of (bindings (map_root m)))"
proof (cases c)
  case (Map_insert k v)
  with TreapMap_insert_ok[OF assms, of k v rng] show ?thesis by auto
next
  case (Map_remove k)
  with TreapMap_remove_ok[OF assms, of k] show ?thesis by (auto simp: map_of_filter_key)
next
  case Map_clear
  then show ?thesis by (simp add: TreapMap_clear_def treap_Nullptr)
qed

lemma map_contents_Cons:
  "map_contents (c # cs) f = map_contents cs (map_contents [c] f)"
  by (cases c) simp_all

lemma TreapMap_run_ok:
  assumes "treap (map_root m)"
  shows "\<exists>m' rng'. TreapMap_run cs (m, rng) = Some (m', rng')
         \<and> treap (map_root m')
         \<and> map_of (bindings (map_root m')) = map_contents cs (map_of (bindings (map_root m)))"
  using assms
proof (induction cs arbitrary: m rng)
  case Nil
  then show ?case by simp
next
  case (Cons c cs)
  from TreapMap_step_ok[OF Cons.prems, of c rng] obtain m1 rng1 where
    s: "TreapMap_step c (m, rng) = Some (m1, rng1)" "treap (map_root m1)"
       "map_of (bindings (map_root m1)) = map_contents [c] (map_of (bindings (map_root m)))"
    by blast
  from Cons.IH[OF s(2), of rng1] obtain m' rng' where
    r: "TreapMap_run cs (m1, rng1) = Some (m', rng')" "treap (map_root m')"
       "map_of (bindings (map_root m')) = map_contents cs (map_of (bindings (map_root m1)))"
    by blast
  have "map_contents (c # cs) (map_of (bindings (map_root m))) =
        map_contents cs (map_contents [c] (map_of (bindings (map_root m))))"
    by (rule map_contents_Cons)
  with s r show ?case by simp
qed

lemma TreapMap_new_treap: "treap (map_root TreapMap_new)"
  by (simp add: TreapMap_new_def treap_Nullptr)

lemma TreapMap_reachable:
  "\<exists>m rng'. TreapMap_run cs (TreapMap_new, rng) = Some (m, rng')
     \<and> treap (map_root m)
     \<and> map_of (bindings (map_root m)) = map_contents cs Map.empty"
  using TreapMap_run_ok[OF TreapMap_new_treap, of cs rng] by (simp add: TreapMap_new_def)

lemma member_keys:
  "treap (set_root s) \<Longrightarrow> TreapSet_member s k \<longleftrightarrow> k \<in> set (inorder (set_root s))"
  by (simp add: TreapSet_member_def member_findNode findNode_keys treap_def)


lemma TreapSet_insert_ok:
  assumes "TreapSet_invar s"
  shows "\<exists>s'. TreapSet_insert k (s, rng) =
           Some (s', if TreapSet_member s k then rng else stl rng)
         \<and> TreapSet_invar s'
         \<and> set (inorder (set_root s')) = insert k (set (inorder (set_root s)))
         \<and> nodeCount s' = nodeCount s + (if TreapSet_member s k then 0 else 1)
         \<and> count_nodes (set_root s') =
             count_nodes (set_root s) + (if TreapSet_member s k then 0 else 1)
         \<and> (TreapSet_member s k \<longrightarrow> s' = s)"
proof (cases "TreapSet_member s k")
  case True
  with assms member_keys[of s k] show ?thesis
    by (auto simp: TreapSet_insert_def TreapSet_invar_def)
next
  case False
  then have nf: "findNode (set_root s) k = Nullptr"
    by (simp add: TreapSet_member_def member_findNode)
  from ins_total[of "set_root s" k "()" rng] nf obtain t' where
    t': "TreapMap_insertRecursive (set_root s) k () rng = Some (t', stl rng)" by auto
  from assms have tr: "treap (set_root s)" and c: "nodeCount s = of_nat (count_nodes (set_root s))"
    by (simp_all add: TreapSet_invar_def)
  have "TreapSet_insert k (s, rng) =
          Some (s\<lparr>set_root := t', nodeCount := nodeCount s + 1\<rparr>, stl rng)"
    using False t' nf by (simp add: TreapSet_insert_def set_ins_map_ins)
  moreover have "treap t'" by (rule ins_treap[OF t' tr])
  moreover have "count_nodes t' = count_nodes (set_root s) + 1"
    using ins_count_nodes[OF t'] nf by simp
  moreover note ins_inorder_set[OF t']
  ultimately show ?thesis using False c by (simp add: TreapSet_invar_def)
qed

lemma TreapSet_remove_ok:
  assumes "TreapSet_invar s"
  shows "\<exists>s'. TreapSet_remove k s = Some s'
         \<and> TreapSet_invar s'
         \<and> inorder (set_root s') = filter (\<lambda>x. x \<noteq> k) (inorder (set_root s))
         \<and> nodeCount s' = nodeCount s - (if TreapSet_member s k then 1 else 0)
         \<and> count_nodes (set_root s') + (if TreapSet_member s k then 1 else 0) =
             count_nodes (set_root s)
         \<and> (\<not> TreapSet_member s k \<longrightarrow> s' = s)"
proof (cases "TreapSet_member s k")
  case False
  from assms have tr: "treap (set_root s)" by (simp add: TreapSet_invar_def)
  from False member_keys[OF tr, of k]
  have "filter (\<lambda>x. x \<noteq> k) (inorder (set_root s)) = inorder (set_root s)"
    by (auto simp: filter_id_conv)
  with False assms show ?thesis by (simp add: TreapSet_remove_def)
next
  case True
  then have f: "findNode (set_root s) k \<noteq> Nullptr"
    by (simp add: TreapSet_member_def member_findNode)
  from rem_total[of "set_root s" k] obtain t' where
    t': "TreapMap_removeRecursive (set_root s) k = Some t'" by blast
  from assms have tr: "treap (set_root s)" and c: "nodeCount s = of_nat (count_nodes (set_root s))"
    by (simp_all add: TreapSet_invar_def)
  have "TreapSet_remove k s = Some (s\<lparr>set_root := t', nodeCount := nodeCount s - 1\<rparr>)"
    using True t' f by (simp add: TreapSet_remove_def set_rem_map_rem)
  moreover have "treap t'" by (rule rem_treap[OF t' tr])
  moreover have n: "count_nodes t' + 1 = count_nodes (set_root s)"
    using rem_count_nodes[OF t'] f by simp
  moreover have "nodeCount s - 1 = of_nat (count_nodes t')"
    using c n [symmetric] by simp
  moreover have "inorder t' = filter (\<lambda>x. x \<noteq> k) (inorder (set_root s))"
    using rem_inorder[OF t'] tr by (simp add: treap_def)
  ultimately show ?thesis using True by (simp add: TreapSet_invar_def)
qed

lemma TreapSet_step_ok:
  assumes "TreapSet_invar s"
  shows "\<exists>s' rng'. TreapSet_step c (s, rng) = Some (s', rng')
         \<and> TreapSet_invar s'
         \<and> set (inorder (set_root s')) = set_contents [c] (set (inorder (set_root s)))"
proof (cases c)
  case (Set_insert k)
  with TreapSet_insert_ok[OF assms, of k rng] show ?thesis by auto
next
  case (Set_remove k)
  from TreapSet_remove_ok[OF assms, of k] obtain s' where
    s': "TreapSet_remove k s = Some s'" "TreapSet_invar s'"
      "inorder (set_root s') = filter (\<lambda>x. x \<noteq> k) (inorder (set_root s))" by blast
  from s'(3) have "set (inorder (set_root s')) = set (inorder (set_root s)) - {k}" by auto
  with s'(1,2) Set_remove show ?thesis by simp
next
  case Set_clear
  then show ?thesis by (simp add: TreapSet_clear_def TreapSet_invar_def treap_Nullptr)
qed

lemma set_contents_Cons:
  "set_contents (c # cs) A = set_contents cs (set_contents [c] A)"
  by (cases c) simp_all

lemma TreapSet_run_ok:
  assumes "TreapSet_invar s"
  shows "\<exists>s' rng'. TreapSet_run cs (s, rng) = Some (s', rng')
         \<and> TreapSet_invar s'
         \<and> set (inorder (set_root s')) = set_contents cs (set (inorder (set_root s)))"
  using assms
proof (induction cs arbitrary: s rng)
  case Nil
  then show ?case by simp
next
  case (Cons c cs)
  from TreapSet_step_ok[OF Cons.prems, of c rng] obtain s1 rng1 where
    s: "TreapSet_step c (s, rng) = Some (s1, rng1)" "TreapSet_invar s1"
       "set (inorder (set_root s1)) = set_contents [c] (set (inorder (set_root s)))"
    by blast
  from Cons.IH[OF s(2), of rng1] obtain s' rng' where
    r: "TreapSet_run cs (s1, rng1) = Some (s', rng')" "TreapSet_invar s'"
       "set (inorder (set_root s')) = set_contents cs (set (inorder (set_root s1)))"
    by blast
  have "set_contents (c # cs) (set (inorder (set_root s))) =
        set_contents cs (set_contents [c] (set (inorder (set_root s))))"
    by (rule set_contents_Cons)
  with s r show ?case by simp
qed

lemma TreapSet_new_invar: "TreapSet_invar TreapSet_new"
  by (simp add: TreapSet_new_def TreapSet_invar_def treap_Nullptr)

lemma TreapSet_reachable:
  "\<exists>s rng'. TreapSet_run cs (TreapSet_new, rng) = Some (s, rng')
     \<and> TreapSet_invar s
     \<and> set (inorder (set_root s)) = set_contents cs {}"
  using TreapSet_run_ok[OF TreapSet_new_invar, of cs rng] by (simp add: TreapSet_new_def)

lemma treap_count_card:
  assumes "treap t"
  shows "count_nodes t = card (set (inorder t))"
proof -
  from assms have "sorted_wrt (<) (inorder t)" by (simp add: treap_def)
  then have "distinct (inorder t)" by (simp add: strict_sorted_iff)
  then have "card (set (inorder t)) = length (inorder t)" by (rule distinct_card)
  then show ?thesis by (simp add: count_nodes_inorder)
qed

lemma invar_card:
  assumes "TreapSet_invar s"
  shows "nodeCount s = of_nat (card (set (inorder (set_root s))))"
  using assms treap_count_card[of "set_root s"] by (simp add: TreapSet_invar_def)




lemma rotateRight_inorder: "rotateRight t = Some t' \<Longrightarrow> inorder t' = inorder t"
  by (auto simp: rotateRight_Some)

lemma rotateLeft_inorder: "rotateLeft t = Some t' \<Longrightarrow> inorder t' = inorder t"
  by (auto simp: rotateLeft_Some)

lemma find_map_of:
  assumes "treap (map_root m)"
  shows "TreapMap_find m k d = (case map_of (bindings (map_root m)) k of None \<Rightarrow> d | Some v \<Rightarrow> v)"
proof -
  from assms have "sorted_wrt (<) (inorder (map_root m))" by (simp add: treap_def)
  from findNode_map_of[OF this, of k, symmetric] show ?thesis
    by (cases "findNode (map_root m) k") (simp_all add: TreapMap_find_def)
qed

lemma contains_map_of:
  assumes "treap (map_root m)"
  shows "TreapMap_contains m k \<longleftrightarrow> k \<in> dom (map_of (bindings (map_root m)))"
proof -
  from assms have "sorted_wrt (<) (inorder (map_root m))" by (simp add: treap_def)
  from findNode_map_of[OF this, of k, symmetric] show ?thesis
    by (cases "findNode (map_root m) k") (auto simp: TreapMap_contains_def)
qed

lemma sorted_bindings_map_of:
  assumes "sorted_wrt (<) (inorder t)" and "(k, v) \<in> set (bindings t)"
  shows "map_of (bindings t) k = Some v"
proof -
  from assms(1) have "distinct (map fst (bindings t))"
    by (simp add: inorder_bindings strict_sorted_iff)
  with assms(2) show ?thesis by simp
qed

lemma skeleton_simps [simp]:
  "skeleton Nullptr = Nullptr"
  "skeleton (Node l k v p r) = Node (skeleton l) k () p (skeleton r)"
  by (simp_all add: skeleton_def)

lemma skeleton_root:
  "skeleton a = skeleton b \<Longrightarrow> b \<noteq> Nullptr \<Longrightarrow> a \<noteq> Nullptr \<and> priority a = priority b"
  by (cases a; cases b) auto

lemma map_bindings_id:
  "\<forall>x\<in>set xs. fst x \<noteq> (k::int) \<Longrightarrow> map (\<lambda>x. if fst x = k then (k, v) else x) xs = xs"
  by (induction xs) auto

lemma ins_present:
  assumes "max_heap t" and "sorted_wrt (<) (inorder t)" and "findNode t k \<noteq> Nullptr"
  shows "\<exists>t'. TreapMap_insertRecursive t k v rng = Some (t', rng)
           \<and> skeleton t' = skeleton t
           \<and> bindings t' = map (\<lambda>x. if fst x = k then (k, v) else x) (bindings t)
           \<and> (val (findNode t k) = v \<longrightarrow> t' = t)"
  using assms
proof (induction t)
  case Nullptr
  then show ?case by simp
next
  case (Node l nk nv np r)
  let ?f = "\<lambda>x. if fst x = k then (k, v) else x"
  from Node.prems(1) have hl: "max_heap l" and hr: "max_heap r"
    and pl: "l \<noteq> Nullptr \<longrightarrow> priority l \<le> np" and pr: "r \<noteq> Nullptr \<longrightarrow> priority r \<le> np"
    by auto
  from sorted_bindings_Node[OF Node.prems(2)]
  have sl: "sorted_wrt (<) (inorder l)" and sr: "sorted_wrt (<) (inorder r)"
    and ll: "\<forall>x\<in>set (bindings l). fst x < nk" and rr: "\<forall>x\<in>set (bindings r). nk < fst x"
    by blast+
  consider "k < nk" | "nk < k" | "k = nk" by linarith
  then show ?case
  proof cases
    case 1
    with Node.prems(3) have f: "findNode l k \<noteq> Nullptr" by simp
    then have ln: "l \<noteq> Nullptr" by auto
    from Node.IH(1)[OF hl sl f] obtain l' where
      l': "TreapMap_insertRecursive l k v rng = Some (l', rng)" "skeleton l' = skeleton l"
        "bindings l' = map ?f (bindings l)" "val (findNode l k) = v \<longrightarrow> l' = l" by blast
    from skeleton_root[OF l'(2) ln] pl ln have nr: "\<not> (l' \<noteq> Nullptr \<and> np < priority l')" by simp
    have e: "TreapMap_insertRecursive (Node l nk nv np r) k v rng = Some (Node l' nk nv np r, rng)"
      using 1 l'(1) nr by auto
    from rr 1 have "map ?f (bindings r) = bindings r" by (intro map_bindings_id) auto
    with e l' 1 show ?thesis by simp
  next
    case 2
    with Node.prems(3) have f: "findNode r k \<noteq> Nullptr" by simp
    then have rn: "r \<noteq> Nullptr" by auto
    from Node.IH(2)[OF hr sr f] obtain r' where
      r': "TreapMap_insertRecursive r k v rng = Some (r', rng)" "skeleton r' = skeleton r"
        "bindings r' = map ?f (bindings r)" "val (findNode r k) = v \<longrightarrow> r' = r" by blast
    from skeleton_root[OF r'(2) rn] pr rn have nr: "\<not> (r' \<noteq> Nullptr \<and> np < priority r')" by simp
    have e: "TreapMap_insertRecursive (Node l nk nv np r) k v rng = Some (Node l nk nv np r', rng)"
      using 2 r'(1) nr by auto
    from ll 2 have "map ?f (bindings l) = bindings l" by (intro map_bindings_id) auto
    with e r' 2 show ?thesis by simp
  next
    case 3
    from ll 3 have "map ?f (bindings l) = bindings l" by (intro map_bindings_id) auto
    moreover from rr 3 have "map ?f (bindings r) = bindings r" by (intro map_bindings_id) auto
    ultimately show ?thesis using 3 by simp
  qed
qed

lemma TreapMap_insert_present:
  assumes "treap (map_root m)" and "TreapMap_contains m k"
  shows "\<exists>m'. TreapMap_insert k v (m, rng) = Some (m', rng)
          \<and> skeleton (map_root m') = skeleton (map_root m)
          \<and> bindings (map_root m') =
              map (\<lambda>x. if fst x = k then (k, v) else x) (bindings (map_root m))
          \<and> (TreapMap_find m k d = v \<longrightarrow> m' = m)"
proof -
  from assms have h: "max_heap (map_root m)" and s: "sorted_wrt (<) (inorder (map_root m))"
    and f: "findNode (map_root m) k \<noteq> Nullptr"
    by (simp_all add: treap_def TreapMap_contains_def)
  from ins_present[OF h s f, of v rng] obtain t' where
    t': "TreapMap_insertRecursive (map_root m) k v rng = Some (t', rng)"
      "skeleton t' = skeleton (map_root m)"
      "bindings t' = map (\<lambda>x. if fst x = k then (k, v) else x) (bindings (map_root m))"
      "val (findNode (map_root m) k) = v \<longrightarrow> t' = map_root m" by blast
  have "TreapMap_find m k d = val (findNode (map_root m) k)"
    using f by (cases "findNode (map_root m) k") (simp_all add: TreapMap_find_def)
  with t' show ?thesis by (auto simp: TreapMap_insert_def)
qed

lemma calls_rot_right:
  "yp < xp \<Longrightarrow>
   removeRecursive_calls (Node (Node t1 xk xv xp t2) k nv np (Node c yk yv yp d)) k =
     1 + removeRecursive_calls (Node t2 k nv np (Node c yk yv yp d)) k"
  by (subst removeRecursive_calls.simps) simp

lemma calls_rot_left:
  "\<not> yp < xp \<Longrightarrow>
   removeRecursive_calls (Node (Node t1 xk xv xp t2) k nv np (Node c yk yv yp d)) k =
     1 + removeRecursive_calls (Node (Node t1 xk xv xp t2) k nv np c) k"
  by (subst removeRecursive_calls.simps) simp

lemma calls_at_root:
  "(case t of Nullptr \<Rightarrow> True
    | Node l nk nv np r \<Rightarrow>
        nk = k \<longrightarrow> removeRecursive_calls t k \<le> 1 + right_spine l + left_spine r)"
proof (induction t k rule: rem_induct)
  case (RotRight t1 xk xv xp t2 k nv np c yk yv yp d)
  then show ?case
    by (simp add: calls_rot_right del: removeRecursive_calls.simps)
next
  case (RotLeft t1 xk xv xp t2 k nv np c yk yv yp d)
  then show ?case
    by (simp add: calls_rot_left del: removeRecursive_calls.simps)
qed auto

lemma right_spine_height: "right_spine t \<le> height t"
  by (induction t) auto

lemma left_spine_height: "left_spine t \<le> height t"
  by (induction t) auto

lemma calls_bound: "removeRecursive_calls t k \<le> 2 * height t + 1"
proof (induction t)
  case Nullptr
  show ?case by simp
next
  case (Node l nk nv np r)
  consider "k < nk" | "nk < k" | "k = nk" by linarith
  then show ?case
  proof cases
    case 1
    with Node.IH(1) show ?thesis by simp
  next
    case 2
    with Node.IH(2) show ?thesis by simp
  next
    case 3
    from calls_at_root[where t = "Node l nk nv np r" and k = k] 3
    have "removeRecursive_calls (Node l nk nv np r) k \<le> 1 + right_spine l + left_spine r"
      by simp
    also have "\<dots> \<le> 1 + height l + height r"
      using right_spine_height[of l] left_spine_height[of r] by simp
    also have "\<dots> \<le> 2 * height (Node l nk nv np r) + 1" by simp
    finally show ?thesis .
  qed
qed

lemma set_rem_total: "\<exists>r. TreapSet_removeRecursive t k cnt = Some r"
  using rem_total[of t k] by (auto simp: set_rem_map_rem)



section \<open>The claims\<close>

text \<open>
  Concrete runs are evaluated with the defining equations of the public operations.
\<close>

lemmas run_defs = TreapSet_insert_def TreapSet_remove_def TreapSet_member_def TreapSet_new_def
  TreapSet_clear_def TreapSet_size_def TreapMap_insert_def TreapMap_remove_def TreapMap_new_def
  TreapMap_clear_def TreapMap_find_def TreapMap_contains_def rem_simps

text \<open>
  C1. Every sequence of \<open>insert\<close>, \<open>remove\<close> and \<open>clear\<close> on an empty \<open>TreapSet\<close>,
  and every such sequence on an empty \<open>TreapMap\<close>, runs to the end and leaves a tree whose
  in-order traversal lists the keys in strictly increasing order, with no key twice.
\<close>

theorem C1_bst_invariant:
  "(\<exists>s rng'. TreapSet_run cs (TreapSet_new, rng1) = Some (s, rng')
       \<and> sorted_wrt (<) (inorder (set_root s)) \<and> distinct (inorder (set_root s)))
   \<and> (\<exists>m rng'. TreapMap_run ds (TreapMap_new, rng2) = Some (m, rng')
       \<and> sorted_wrt (<) (inorder (map_root m)) \<and> distinct (inorder (map_root m)))"
proof
  from TreapSet_reachable[of cs rng1] obtain s rng' where
    "TreapSet_run cs (TreapSet_new, rng1) = Some (s, rng')" "TreapSet_invar s" by blast
  then show "\<exists>s rng'. TreapSet_run cs (TreapSet_new, rng1) = Some (s, rng')
       \<and> sorted_wrt (<) (inorder (set_root s)) \<and> distinct (inorder (set_root s))"
    by (auto simp: TreapSet_invar_def treap_def strict_sorted_iff)
next
  from TreapMap_reachable[of ds rng2] obtain m rng' where
    "TreapMap_run ds (TreapMap_new, rng2) = Some (m, rng')" "treap (map_root m)" by blast
  then show "\<exists>m rng'. TreapMap_run ds (TreapMap_new, rng2) = Some (m, rng')
       \<and> sorted_wrt (<) (inorder (map_root m)) \<and> distinct (inorder (map_root m))"
    by (auto simp: treap_def strict_sorted_iff)
qed

theorem C1_bst_invariant_witness:
  "TreapSet_run [Set_insert 50, Set_insert 30, Set_insert 70, Set_insert 20, Set_remove 30]
     (TreapSet_new, 3 ## 8 ## 5 ## 1 ## sconst 0) =
     Some (\<lparr>set_root = Node (Node (Node Nullptr 20 () 1 Nullptr) 50 () 3 Nullptr) 70 () 5 Nullptr,
            nodeCount = 3\<rparr>, sconst 0)
   \<and> sorted_wrt (<) (inorder (Node (Node (Node Nullptr 20 () 1 Nullptr) 50 () 3 Nullptr) 70 () 5 Nullptr))
   \<and> TreapMap_run [Map_insert 50 ''Alejandro'', Map_insert 30 ''Beatriz'',
        Map_insert 70 ''Carlos'', Map_insert 50 ''Ana'', Map_remove 70]
     (TreapMap_new, 4 ## 9 ## 2 ## sconst 0) =
     Some (\<lparr>map_root = Node Nullptr 30 ''Beatriz'' 9 (Node Nullptr 50 ''Ana'' 4 Nullptr)\<rparr>, sconst 0)
   \<and> sorted_wrt (<) (inorder (Node Nullptr 30 ''Beatriz'' 9 (Node Nullptr 50 ''Ana'' 4 Nullptr)))"
proof -
  have r1: "TreapSet_run [Set_insert 50, Set_insert 30, Set_insert 70, Set_insert 20, Set_remove 30]
     (TreapSet_new, 3 ## 8 ## 5 ## 1 ## sconst 0) =
     Some (\<lparr>set_root = Node (Node (Node Nullptr 20 () 1 Nullptr) 50 () 3 Nullptr) 70 () 5 Nullptr,
            nodeCount = 3\<rparr>, sconst 0)"
    by (simp add: run_defs)
  have r2: "TreapMap_run [Map_insert 50 ''Alejandro'', Map_insert 30 ''Beatriz'',
        Map_insert 70 ''Carlos'', Map_insert 50 ''Ana'', Map_remove 70]
     (TreapMap_new, 4 ## 9 ## 2 ## sconst 0) =
     Some (\<lparr>map_root = Node Nullptr 30 ''Beatriz'' 9 (Node Nullptr 50 ''Ana'' 4 Nullptr)\<rparr>, sconst 0)"
    by (simp add: run_defs)
  from C1_bst_invariant[of
      "[Set_insert 50, Set_insert 30, Set_insert 70, Set_insert 20, Set_remove 30]"
      "3 ## 8 ## 5 ## 1 ## sconst 0"
      "[Map_insert 50 ''Alejandro'', Map_insert 30 ''Beatriz'',
        Map_insert 70 ''Carlos'', Map_insert 50 ''Ana'', Map_remove 70]"
      "4 ## 9 ## 2 ## sconst 0"]
  show ?thesis unfolding r1 r2 by simp
qed

text \<open>
  C2, as stated: after every sequence of public operations each node's priority is strictly
  greater than the priority of each child it has. \<open>rand()\<close> may return the same value for
  two nodes, and the code rotates only when the child's priority is strictly greater, so a
  node and its child can carry equal priorities: here the first and the third value drawn
  are both 5.
\<close>

theorem C2_strict_heap_counterexample:
  "TreapSet_run [Set_insert 1, Set_insert 3, Set_insert 2] (TreapSet_new, 5 ## 7 ## 5 ## sconst 0) =
     Some (\<lparr>set_root = Node (Node Nullptr 1 () 5 (Node Nullptr 2 () 5 Nullptr)) 3 () 7 Nullptr,
            nodeCount = 3\<rparr>, sconst 0)
   \<and> \<not> heap_strict (Node (Node Nullptr 1 () 5 (Node Nullptr 2 () 5 Nullptr)) 3 () 7 Nullptr)"
  by (simp add: run_defs)

text \<open>
  C2, amended: after every sequence of public operations on an empty \<open>TreapSet\<close> or
  \<open>TreapMap\<close>, each node's priority is greater than or equal to the priority of each child
  it has.
\<close>

theorem C2_max_heap_invariant:
  "(\<exists>s rng'. TreapSet_run cs (TreapSet_new, rng1) = Some (s, rng') \<and> max_heap (set_root s))
   \<and> (\<exists>m rng'. TreapMap_run ds (TreapMap_new, rng2) = Some (m, rng') \<and> max_heap (map_root m))"
proof
  from TreapSet_reachable[of cs rng1] obtain s rng' where
    "TreapSet_run cs (TreapSet_new, rng1) = Some (s, rng')" "TreapSet_invar s" by blast
  then show "\<exists>s rng'. TreapSet_run cs (TreapSet_new, rng1) = Some (s, rng') \<and> max_heap (set_root s)"
    by (auto simp: TreapSet_invar_def treap_def)
next
  from TreapMap_reachable[of ds rng2] obtain m rng' where
    "TreapMap_run ds (TreapMap_new, rng2) = Some (m, rng')" "treap (map_root m)" by blast
  then show "\<exists>m rng'. TreapMap_run ds (TreapMap_new, rng2) = Some (m, rng') \<and> max_heap (map_root m)"
    by (auto simp: treap_def)
qed

theorem C2_max_heap_invariant_witness:
  "TreapSet_run [Set_insert 1, Set_insert 3, Set_insert 2] (TreapSet_new, 5 ## 7 ## 5 ## sconst 0) =
     Some (\<lparr>set_root = Node (Node Nullptr 1 () 5 (Node Nullptr 2 () 5 Nullptr)) 3 () 7 Nullptr,
            nodeCount = 3\<rparr>, sconst 0)
   \<and> max_heap (Node (Node Nullptr 1 () 5 (Node Nullptr 2 () 5 Nullptr)) 3 () (7::int) Nullptr)
   \<and> TreapMap_run [Map_insert 50 ''Alejandro'', Map_insert 30 ''Beatriz'', Map_insert 70 ''Carlos'']
     (TreapMap_new, 4 ## 9 ## 2 ## sconst 0) =
     Some (\<lparr>map_root = Node Nullptr 30 ''Beatriz'' 9
              (Node Nullptr 50 ''Alejandro'' 4 (Node Nullptr 70 ''Carlos'' 2 Nullptr))\<rparr>, sconst 0)
   \<and> max_heap (Node Nullptr 30 ''Beatriz'' 9
              (Node Nullptr 50 ''Alejandro'' 4 (Node Nullptr 70 ''Carlos'' 2 Nullptr)))"
proof -
  have r1: "TreapSet_run [Set_insert 1, Set_insert 3, Set_insert 2]
       (TreapSet_new, 5 ## 7 ## 5 ## sconst 0) =
     Some (\<lparr>set_root = Node (Node Nullptr 1 () 5 (Node Nullptr 2 () 5 Nullptr)) 3 () 7 Nullptr,
            nodeCount = 3\<rparr>, sconst 0)"
    by (simp add: run_defs)
  have r2: "TreapMap_run [Map_insert 50 ''Alejandro'', Map_insert 30 ''Beatriz'', Map_insert 70 ''Carlos'']
     (TreapMap_new, 4 ## 9 ## 2 ## sconst 0) =
     Some (\<lparr>map_root = Node Nullptr 30 ''Beatriz'' 9
              (Node Nullptr 50 ''Alejandro'' 4 (Node Nullptr 70 ''Carlos'' 2 Nullptr))\<rparr>, sconst 0)"
    by (simp add: run_defs)
  from C2_max_heap_invariant[of "[Set_insert 1, Set_insert 3, Set_insert 2]"
      "5 ## 7 ## 5 ## sconst 0"
      "[Map_insert 50 ''Alejandro'', Map_insert 30 ''Beatriz'', Map_insert 70 ''Carlos'']"
      "4 ## 9 ## 2 ## sconst 0"]
  show ?thesis unfolding r1 r2 by simp
qed








text \<open>
  C5. On a node \<open>y\<close> whose left child \<open>x\<close> is not empty, \<open>rotateRight(y)\<close> dereferences
  no null pointer and returns \<open>x\<close> with \<open>y\<close> as its right child and the former right
  subtree of \<open>x\<close> as the left subtree of \<open>y\<close>; \<open>rotateLeft\<close> is the mirror image. Whenever
  a rotation returns, with no condition on keys or priorities, the in-order sequence of
  keys is the same as before: the key set is kept, and the subtree is ordered after the
  rotation if it was before.
\<close>

theorem C5_rotations:
  "rotateRight (Node (Node t1 xk xv xp t2) yk yv yp t3) =
       Some (Node t1 xk xv xp (Node t2 yk yv yp t3))
   \<and> rotateLeft (Node t1 xk xv xp (Node t2 yk yv yp t3)) =
       Some (Node (Node t1 xk xv xp t2) yk yv yp t3)
   \<and> (y \<noteq> Nullptr \<and> left y \<noteq> Nullptr \<longrightarrow>
        rotateRight y = Some (Node (left (left y)) (key (left y)) (val (left y)) (priority (left y))
                               (Node (right (left y)) (key y) (val y) (priority y) (right y))))
   \<and> (x \<noteq> Nullptr \<and> right x \<noteq> Nullptr \<longrightarrow>
        rotateLeft x = Some (Node (Node (left x) (key x) (val x) (priority x) (left (right x)))
                               (key (right x)) (val (right x)) (priority (right x)) (right (right x))))
   \<and> (\<forall>t'. rotateRight t = Some t' \<or> rotateLeft t = Some t' \<longrightarrow>
          inorder t' = inorder t \<and> set (inorder t') = set (inorder t)
          \<and> (sorted_wrt (<) (inorder t) \<longrightarrow> sorted_wrt (<) (inorder t')))"
proof (intro conjI)
  show "rotateRight (Node (Node t1 xk xv xp t2) yk yv yp t3) =
       Some (Node t1 xk xv xp (Node t2 yk yv yp t3))" by simp
  show "rotateLeft (Node t1 xk xv xp (Node t2 yk yv yp t3)) =
       Some (Node (Node t1 xk xv xp t2) yk yv yp t3)" by simp
  show "y \<noteq> Nullptr \<and> left y \<noteq> Nullptr \<longrightarrow>
        rotateRight y = Some (Node (left (left y)) (key (left y)) (val (left y)) (priority (left y))
                               (Node (right (left y)) (key y) (val y) (priority y) (right y)))"
    by (cases y; cases "left y") auto
  show "x \<noteq> Nullptr \<and> right x \<noteq> Nullptr \<longrightarrow>
        rotateLeft x = Some (Node (Node (left x) (key x) (val x) (priority x) (left (right x)))
                               (key (right x)) (val (right x)) (priority (right x)) (right (right x)))"
    by (cases x; cases "right x") auto
  show "\<forall>t'. rotateRight t = Some t' \<or> rotateLeft t = Some t' \<longrightarrow>
          inorder t' = inorder t \<and> set (inorder t') = set (inorder t)
          \<and> (sorted_wrt (<) (inorder t) \<longrightarrow> sorted_wrt (<) (inorder t'))"
    using rotateRight_inorder[of t] rotateLeft_inorder[of t] by auto
qed

theorem C5_rotations_witness:
  "rotateRight (Node (Node (Node Nullptr 1 ''a'' 7 Nullptr) 2 ''b'' 9 (Node Nullptr 3 ''c'' 4 Nullptr))
      5 ''e'' 8 (Node Nullptr 6 ''f'' 2 Nullptr)) =
     Some (Node (Node Nullptr 1 ''a'' 7 Nullptr) 2 ''b'' 9
            (Node (Node Nullptr 3 ''c'' 4 Nullptr) 5 ''e'' 8 (Node Nullptr 6 ''f'' 2 Nullptr)))
   \<and> rotateLeft (Node (Node (Node Nullptr 1 ''a'' 7 Nullptr) 2 ''b'' 9 (Node Nullptr 3 ''c'' 4 Nullptr))
      5 ''e'' 8 (Node Nullptr 6 ''f'' 2 Nullptr)) =
     Some (Node (Node (Node (Node Nullptr 1 ''a'' 7 Nullptr) 2 ''b'' 9 (Node Nullptr 3 ''c'' 4 Nullptr))
            5 ''e'' 8 Nullptr) 6 ''f'' 2 Nullptr)
   \<and> inorder (Node (Node (Node Nullptr 1 ''a'' 7 Nullptr) 2 ''b'' 9 (Node Nullptr 3 ''c'' 4 Nullptr))
      5 ''e'' 8 (Node Nullptr 6 ''f'' 2 Nullptr)) = [1, 2, 3, 5, 6]
   \<and> inorder (Node (Node Nullptr 1 ''a'' 7 Nullptr) 2 ''b'' 9
            (Node (Node Nullptr 3 ''c'' 4 Nullptr) 5 ''e'' 8 (Node Nullptr 6 ''f'' 2 Nullptr)))
      = [1, 2, 3, 5, 6]
   \<and> sorted_wrt (<) (inorder (Node (Node Nullptr 1 ''a'' 7 Nullptr) 2 ''b'' 9
            (Node (Node Nullptr 3 ''c'' 4 Nullptr) 5 ''e'' 8 (Node Nullptr 6 ''f'' 2 Nullptr))))"
  using C5_rotations[of "Node Nullptr 1 ''a'' 7 Nullptr" 2 "''b''" 9 "Node Nullptr 3 ''c'' 4 Nullptr"
      5 "''e''" 8 "Node Nullptr 6 ''f'' 2 Nullptr"
      "Node (Node (Node Nullptr 1 ''a'' 7 Nullptr) 2 ''b'' 9 (Node Nullptr 3 ''c'' 4 Nullptr))
        5 ''e'' 8 (Node Nullptr 6 ''f'' 2 Nullptr)"
      "Node (Node (Node Nullptr 1 ''a'' 7 Nullptr) 2 ''b'' 9 (Node Nullptr 3 ''c'' 4 Nullptr))
        5 ''e'' 8 (Node Nullptr 6 ''f'' 2 Nullptr)"
      "Node (Node (Node Nullptr 1 ''a'' 7 Nullptr) 2 ''b'' 9 (Node Nullptr 3 ''c'' 4 Nullptr))
        5 ''e'' 8 (Node Nullptr 6 ''f'' 2 Nullptr)"]
  by simp

text \<open>
  C6. In every state that a sequence of public operations on an empty \<open>TreapMap\<close> reaches,
  \<open>find(k, d)\<close> is the value that the sequence has bound to \<open>k\<close>, or \<open>d\<close> when it has
  bound none; in terms of the tree, it is the value stored in the node of \<open>k\<close> when there is
  one, and \<open>d\<close> when no node holds \<open>k\<close>. \<open>find\<close> is a function of the object and its
  arguments that yields a value only: it has no error result and returns no new state.
\<close>

theorem C6_find_default:
  "\<exists>m rng'. TreapMap_run ds (TreapMap_new, rng) = Some (m, rng')
     \<and> TreapMap_find m k d = (case map_contents ds Map.empty k of None \<Rightarrow> d | Some v \<Rightarrow> v)
     \<and> (TreapMap_contains m k \<longleftrightarrow> k \<in> dom (map_contents ds Map.empty))
     \<and> (\<forall>v. (k, v) \<in> set (bindings (map_root m)) \<longrightarrow> TreapMap_find m k d = v)
     \<and> (k \<notin> set (inorder (map_root m)) \<longrightarrow> TreapMap_find m k d = d)"
proof -
  from TreapMap_reachable[of ds rng] obtain m rng' where
    r: "TreapMap_run ds (TreapMap_new, rng) = Some (m, rng')" and t: "treap (map_root m)"
    and c: "map_of (bindings (map_root m)) = map_contents ds Map.empty" by blast
  from t have s: "sorted_wrt (<) (inorder (map_root m))" by (simp add: treap_def)
  have 1: "TreapMap_find m k d = (case map_contents ds Map.empty k of None \<Rightarrow> d | Some v \<Rightarrow> v)"
    using find_map_of[OF t, of k d] c by simp
  have 2: "TreapMap_contains m k \<longleftrightarrow> k \<in> dom (map_contents ds Map.empty)"
    using contains_map_of[OF t, of k] c by simp
  have 3: "\<forall>v. (k, v) \<in> set (bindings (map_root m)) \<longrightarrow> TreapMap_find m k d = v"
    using find_map_of[OF t, of k d] sorted_bindings_map_of[OF s] by auto
  have 4: "k \<notin> set (inorder (map_root m)) \<longrightarrow> TreapMap_find m k d = d"
    using find_map_of[OF t, of k d] by (auto simp: inorder_bindings map_of_eq_None_iff[symmetric])
  from r 1 2 3 4 show ?thesis by blast
qed

theorem C6_find_default_witness:
  "TreapMap_run [Map_insert 50 ''Alejandro'', Map_insert 30 ''Beatriz'', Map_insert 70 ''Carlos'']
     (TreapMap_new, 4 ## 9 ## 2 ## sconst 0) =
     Some (\<lparr>map_root = Node Nullptr 30 ''Beatriz'' 9
              (Node Nullptr 50 ''Alejandro'' 4 (Node Nullptr 70 ''Carlos'' 2 Nullptr))\<rparr>, sconst 0)
   \<and> (30, ''Beatriz'') \<in> set (bindings (Node Nullptr 30 ''Beatriz'' 9
              (Node Nullptr 50 ''Alejandro'' 4 (Node Nullptr 70 ''Carlos'' 2 Nullptr))))
   \<and> TreapMap_find \<lparr>map_root = Node Nullptr 30 ''Beatriz'' 9
              (Node Nullptr 50 ''Alejandro'' 4 (Node Nullptr 70 ''Carlos'' 2 Nullptr))\<rparr> 30 ''N/A''
      = ''Beatriz''
   \<and> 99 \<notin> set (inorder (Node Nullptr 30 ''Beatriz'' 9
              (Node Nullptr 50 ''Alejandro'' 4 (Node Nullptr 70 ''Carlos'' 2 Nullptr))))
   \<and> TreapMap_find \<lparr>map_root = Node Nullptr 30 ''Beatriz'' 9
              (Node Nullptr 50 ''Alejandro'' 4 (Node Nullptr 70 ''Carlos'' 2 Nullptr))\<rparr> 99 ''N/A''
      = ''N/A''"
proof -
  have r: "TreapMap_run [Map_insert 50 ''Alejandro'', Map_insert 30 ''Beatriz'', Map_insert 70 ''Carlos'']
     (TreapMap_new, 4 ## 9 ## 2 ## sconst 0) =
     Some (\<lparr>map_root = Node Nullptr 30 ''Beatriz'' 9
              (Node Nullptr 50 ''Alejandro'' 4 (Node Nullptr 70 ''Carlos'' 2 Nullptr))\<rparr>, sconst 0)"
    by (simp add: run_defs)
  from C6_find_default[of "[Map_insert 50 ''Alejandro'', Map_insert 30 ''Beatriz'',
      Map_insert 70 ''Carlos'']" "4 ## 9 ## 2 ## sconst 0" 30 "''N/A''"]
  have a: "TreapMap_find \<lparr>map_root = Node Nullptr 30 ''Beatriz'' 9
              (Node Nullptr 50 ''Alejandro'' 4 (Node Nullptr 70 ''Carlos'' 2 Nullptr))\<rparr> 30 ''N/A''
      = ''Beatriz''"
    unfolding r by simp
  from C6_find_default[of "[Map_insert 50 ''Alejandro'', Map_insert 30 ''Beatriz'',
      Map_insert 70 ''Carlos'']" "4 ## 9 ## 2 ## sconst 0" 99 "''N/A''"]
  have b: "TreapMap_find \<lparr>map_root = Node Nullptr 30 ''Beatriz'' 9
              (Node Nullptr 50 ''Alejandro'' 4 (Node Nullptr 70 ''Carlos'' 2 Nullptr))\<rparr> 99 ''N/A''
      = ''N/A''"
    unfolding r by simp
  from r a b show ?thesis by simp
qed

text \<open>
  C7. In every state that a sequence of public operations on an empty \<open>TreapMap\<close> reaches
  and in which \<open>k\<close> is present, \<open>insert(k, v2)\<close> returns without calling \<open>rand()\<close>, so
  without creating a node; afterwards \<open>find(k, d)\<close> is \<open>v2\<close>, the tree has the shape, the
  keys and the priorities it had, the number of nodes is the same, the binding of \<open>k\<close> is
  the only one that may differ, and \<open>find\<close> gives for every other key what it gave before.
\<close>

theorem C7_insert_overwrites:
  "\<exists>m rng'. TreapMap_run ds (TreapMap_new, rng) = Some (m, rng')
     \<and> (TreapMap_contains m k \<longrightarrow>
          (\<exists>m'. TreapMap_insert k v2 (m, rng') = Some (m', rng')
             \<and> TreapMap_find m' k d = v2
             \<and> skeleton (map_root m') = skeleton (map_root m)
             \<and> count_nodes (map_root m') = count_nodes (map_root m)
             \<and> bindings (map_root m') =
                 map (\<lambda>x. if fst x = k then (k, v2) else x) (bindings (map_root m))
             \<and> (\<forall>k'. k' \<noteq> k \<longrightarrow> TreapMap_find m' k' d = TreapMap_find m k' d)))"
proof -
  from TreapMap_reachable[of ds rng] obtain m rng' where
    r: "TreapMap_run ds (TreapMap_new, rng) = Some (m, rng')" and t: "treap (map_root m)"
    by blast
  have "\<exists>m'. TreapMap_insert k v2 (m, rng') = Some (m', rng')
             \<and> TreapMap_find m' k d = v2
             \<and> skeleton (map_root m') = skeleton (map_root m)
             \<and> count_nodes (map_root m') = count_nodes (map_root m)
             \<and> bindings (map_root m') =
                 map (\<lambda>x. if fst x = k then (k, v2) else x) (bindings (map_root m))
             \<and> (\<forall>k'. k' \<noteq> k \<longrightarrow> TreapMap_find m' k' d = TreapMap_find m k' d)"
    if c: "TreapMap_contains m k"
  proof -
    from TreapMap_insert_present[OF t c, of v2 rng' d] obtain m' where
      m': "TreapMap_insert k v2 (m, rng') = Some (m', rng')"
        "skeleton (map_root m') = skeleton (map_root m)"
        "bindings (map_root m') =
           map (\<lambda>x. if fst x = k then (k, v2) else x) (bindings (map_root m))" by blast
    from TreapMap_insert_ok[OF t, of k v2 rng'] m'(1)
    have t': "treap (map_root m')"
      and b: "map_of (bindings (map_root m')) = (map_of (bindings (map_root m)))(k \<mapsto> v2)"
      by auto
    have 1: "TreapMap_find m' k d = v2" using find_map_of[OF t', of k d] b by simp
    have 2: "\<forall>k'. k' \<noteq> k \<longrightarrow> TreapMap_find m' k' d = TreapMap_find m k' d"
      using find_map_of[OF t', of _ d] find_map_of[OF t, of _ d] b by simp
    have 3: "count_nodes (map_root m') = count_nodes (map_root m)"
      using m'(3) by (simp add: count_nodes_inorder inorder_bindings)
    from m' 1 2 3 show ?thesis by blast
  qed
  with r show ?thesis by blast
qed

theorem C7_insert_overwrites_witness:
  "TreapMap_run [Map_insert 50 ''Alejandro'', Map_insert 30 ''Beatriz'', Map_insert 70 ''Carlos'']
     (TreapMap_new, 4 ## 9 ## 2 ## sconst 0) =
     Some (\<lparr>map_root = Node Nullptr 30 ''Beatriz'' 9
              (Node Nullptr 50 ''Alejandro'' 4 (Node Nullptr 70 ''Carlos'' 2 Nullptr))\<rparr>, sconst 0)
   \<and> TreapMap_contains \<lparr>map_root = Node Nullptr 30 ''Beatriz'' 9
              (Node Nullptr 50 ''Alejandro'' 4 (Node Nullptr 70 ''Carlos'' 2 Nullptr))\<rparr> 50
   \<and> (\<exists>m'. TreapMap_insert 50 ''Ana'' (\<lparr>map_root = Node Nullptr 30 ''Beatriz'' 9
              (Node Nullptr 50 ''Alejandro'' 4 (Node Nullptr 70 ''Carlos'' 2 Nullptr))\<rparr>, sconst 0)
            = Some (m', sconst 0)
          \<and> TreapMap_find m' 50 ''N/A'' = ''Ana''
          \<and> bindings (map_root m') = [(30, ''Beatriz''), (50, ''Ana''), (70, ''Carlos'')])"
proof -
  have r: "TreapMap_run [Map_insert 50 ''Alejandro'', Map_insert 30 ''Beatriz'', Map_insert 70 ''Carlos'']
     (TreapMap_new, 4 ## 9 ## 2 ## sconst 0) =
     Some (\<lparr>map_root = Node Nullptr 30 ''Beatriz'' 9
              (Node Nullptr 50 ''Alejandro'' 4 (Node Nullptr 70 ''Carlos'' 2 Nullptr))\<rparr>, sconst 0)"
    by (simp add: run_defs)
  have c: "TreapMap_contains \<lparr>map_root = Node Nullptr 30 ''Beatriz'' 9
              (Node Nullptr 50 ''Alejandro'' 4 (Node Nullptr 70 ''Carlos'' 2 Nullptr))\<rparr> 50"
    by (simp add: TreapMap_contains_def)
  from C7_insert_overwrites[of "[Map_insert 50 ''Alejandro'', Map_insert 30 ''Beatriz'',
      Map_insert 70 ''Carlos'']" "4 ## 9 ## 2 ## sconst 0" 50 "''Ana''" "''N/A''"] c
  have "\<exists>m'. TreapMap_insert 50 ''Ana'' (\<lparr>map_root = Node Nullptr 30 ''Beatriz'' 9
              (Node Nullptr 50 ''Alejandro'' 4 (Node Nullptr 70 ''Carlos'' 2 Nullptr))\<rparr>, sconst 0)
            = Some (m', sconst 0)
          \<and> TreapMap_find m' 50 ''N/A'' = ''Ana''
          \<and> bindings (map_root m') = [(30, ''Beatriz''), (50, ''Ana''), (70, ''Carlos'')]"
    unfolding r by auto
  with r c show ?thesis by blast
qed

text \<open>
  C8. In every state that a sequence of public operations reaches, a second \<open>insert\<close> with
  the same arguments returns the object and the generator exactly as the first one left
  them, for \<open>TreapSet\<close> and for \<open>TreapMap\<close>; and \<open>insert\<close> of a key that is already a
  member of a \<open>TreapSet\<close> returns the object, its counter included, and the generator
  unchanged.
\<close>

theorem C8_insert_idempotent:
  "(\<exists>s rng'. TreapSet_run cs (TreapSet_new, rng1) = Some (s, rng')
      \<and> (\<exists>s1 r1. TreapSet_insert k (s, rng') = Some (s1, r1)
            \<and> TreapSet_insert k (s1, r1) = Some (s1, r1))
      \<and> (TreapSet_member s k \<longrightarrow> TreapSet_insert k (s, rng') = Some (s, rng')))
   \<and> (\<exists>m rng'. TreapMap_run ds (TreapMap_new, rng2) = Some (m, rng')
      \<and> (\<exists>m1 r1. TreapMap_insert k v (m, rng') = Some (m1, r1)
            \<and> TreapMap_insert k v (m1, r1) = Some (m1, r1)))"
proof
  from TreapSet_reachable[of cs rng1] obtain s rng' where
    r: "TreapSet_run cs (TreapSet_new, rng1) = Some (s, rng')" and i: "TreapSet_invar s" by blast
  from TreapSet_insert_ok[OF i, of k rng'] obtain s1 where
    s1: "TreapSet_insert k (s, rng') = Some (s1, if TreapSet_member s k then rng' else stl rng')"
      "TreapSet_invar s1" "set (inorder (set_root s1)) = insert k (set (inorder (set_root s)))"
      "TreapSet_member s k \<longrightarrow> s1 = s" by blast
  let ?r1 = "if TreapSet_member s k then rng' else stl rng'"
  from s1(2) have "treap (set_root s1)" by (simp add: TreapSet_invar_def)
  from member_keys[OF this, of k] s1(3) have m1: "TreapSet_member s1 k" by simp
  from TreapSet_insert_ok[OF s1(2), of k ?r1] m1
  have "TreapSet_insert k (s1, ?r1) = Some (s1, ?r1)" by auto
  with s1(1) have "\<exists>s1 r1. TreapSet_insert k (s, rng') = Some (s1, r1)
            \<and> TreapSet_insert k (s1, r1) = Some (s1, r1)" by blast
  moreover from s1(1,4)
  have "TreapSet_member s k \<longrightarrow> TreapSet_insert k (s, rng') = Some (s, rng')" by auto
  ultimately show "\<exists>s rng'. TreapSet_run cs (TreapSet_new, rng1) = Some (s, rng')
      \<and> (\<exists>s1 r1. TreapSet_insert k (s, rng') = Some (s1, r1)
            \<and> TreapSet_insert k (s1, r1) = Some (s1, r1))
      \<and> (TreapSet_member s k \<longrightarrow> TreapSet_insert k (s, rng') = Some (s, rng'))"
    using r by blast
next
  from TreapMap_reachable[of ds rng2] obtain m rng' where
    r: "TreapMap_run ds (TreapMap_new, rng2) = Some (m, rng')" and t: "treap (map_root m)"
    by blast
  from TreapMap_insert_ok[OF t, of k v rng'] obtain m1 where
    m1: "TreapMap_insert k v (m, rng') = Some (m1, if TreapMap_contains m k then rng' else stl rng')"
      "treap (map_root m1)"
      "map_of (bindings (map_root m1)) = (map_of (bindings (map_root m)))(k \<mapsto> v)" by blast
  let ?r1 = "if TreapMap_contains m k then rng' else stl rng'"
  from contains_map_of[OF m1(2), of k] m1(3) have c: "TreapMap_contains m1 k" by simp
  from find_map_of[OF m1(2), of k v] m1(3) have f: "TreapMap_find m1 k v = v" by simp
  from TreapMap_insert_present[OF m1(2) c, of v ?r1 v] f
  have "TreapMap_insert k v (m1, ?r1) = Some (m1, ?r1)" by auto
  with m1(1) r show "\<exists>m rng'. TreapMap_run ds (TreapMap_new, rng2) = Some (m, rng')
      \<and> (\<exists>m1 r1. TreapMap_insert k v (m, rng') = Some (m1, r1)
            \<and> TreapMap_insert k v (m1, r1) = Some (m1, r1))"
    by blast
qed

theorem C8_insert_idempotent_witness:
  "TreapSet_run [Set_insert 50, Set_insert 30] (TreapSet_new, 3 ## 8 ## 5 ## 1 ## sconst 0) =
     Some (\<lparr>set_root = Node Nullptr 30 () 8 (Node Nullptr 50 () 3 Nullptr), nodeCount = 2\<rparr>,
           5 ## 1 ## sconst 0)
   \<and> TreapSet_member \<lparr>set_root = Node Nullptr 30 () 8 (Node Nullptr 50 () 3 Nullptr),
        nodeCount = 2\<rparr> 30
   \<and> TreapSet_insert 30 (\<lparr>set_root = Node Nullptr 30 () 8 (Node Nullptr 50 () 3 Nullptr),
        nodeCount = 2\<rparr>, 5 ## 1 ## sconst 0) =
      Some (\<lparr>set_root = Node Nullptr 30 () 8 (Node Nullptr 50 () 3 Nullptr), nodeCount = 2\<rparr>,
           5 ## 1 ## sconst 0)"
proof -
  have r: "TreapSet_run [Set_insert 50, Set_insert 30] (TreapSet_new, 3 ## 8 ## 5 ## 1 ## sconst 0) =
     Some (\<lparr>set_root = Node Nullptr 30 () 8 (Node Nullptr 50 () 3 Nullptr), nodeCount = 2\<rparr>,
           5 ## 1 ## sconst 0)"
    by (simp add: run_defs)
  have m: "TreapSet_member \<lparr>set_root = Node Nullptr 30 () 8 (Node Nullptr 50 () 3 Nullptr),
        nodeCount = 2\<rparr> 30"
    by (simp add: TreapSet_member_def)
  from C8_insert_idempotent[of "[Set_insert 50, Set_insert 30]" "3 ## 8 ## 5 ## 1 ## sconst 0" 30
      "[]" "sconst 0" "()"] m
  have "TreapSet_insert 30 (\<lparr>set_root = Node Nullptr 30 () 8 (Node Nullptr 50 () 3 Nullptr),
        nodeCount = 2\<rparr>, 5 ## 1 ## sconst 0) =
      Some (\<lparr>set_root = Node Nullptr 30 () 8 (Node Nullptr 50 () 3 Nullptr), nodeCount = 2\<rparr>,
           5 ## 1 ## sconst 0)"
    unfolding r by simp
  with r m show ?thesis by blast
qed

text \<open>
  C9, as stated: in the two-child case each rotation reduces the depth of the node that is
  being removed by one. The set built by inserting 2, 1, 3 with priorities 10, 9, 5 has the
  node of 2 at the root (depth 0) with two children; \<open>remove(2)\<close> rotates it right, below
  the node of 1, where its depth is 1, and the height of the subtree that hangs from it is
  2 before and after the rotation.
\<close>

theorem C9_depth_counterexample:
  "TreapSet_run [Set_insert 2, Set_insert 1, Set_insert 3] (TreapSet_new, 10 ## 9 ## 5 ## sconst 0) =
     Some (\<lparr>set_root = Node (Node Nullptr 1 () 9 Nullptr) 2 () 10 (Node Nullptr 3 () 5 Nullptr),
            nodeCount = 3\<rparr>, sconst 0)
   \<and> priority (Node Nullptr 1 () 9 Nullptr) > priority (Node Nullptr 3 () 5 Nullptr)
   \<and> rotateRight (Node (Node Nullptr 1 () 9 Nullptr) 2 () 10 (Node Nullptr 3 () 5 Nullptr)) =
       Some (Node Nullptr 1 () 9 (Node Nullptr 2 () 10 (Node Nullptr 3 () 5 Nullptr)))
   \<and> depth_of (Node (Node Nullptr 1 () 9 Nullptr) 2 () 10 (Node Nullptr 3 () 5 Nullptr)) 2 = Some 0
   \<and> depth_of (Node Nullptr 1 () 9 (Node Nullptr 2 () 10 (Node Nullptr 3 () 5 Nullptr))) 2 = Some 1
   \<and> height (findNode (Node (Node Nullptr 1 () 9 Nullptr) 2 () 10 (Node Nullptr 3 () 5 Nullptr)) 2) = 2
   \<and> height (findNode (Node Nullptr 1 () 9 (Node Nullptr 2 () 10 (Node Nullptr 3 () 5 Nullptr))) 2) = 2
   \<and> TreapSet_removeRecursive
        (Node (Node Nullptr 1 () 9 Nullptr) 2 () 10 (Node Nullptr 3 () 5 Nullptr)) 2 3 =
       Some (Node Nullptr 1 () 9 (Node Nullptr 3 () 5 Nullptr), 2)"
  by (simp add: run_defs)

text \<open>
  C9, amended: \<open>removeRecursive\<close> always returns, in both classes, and one call on a tree
  of height \<open>h\<close> causes at most \<open>2 * h + 1\<close> invocations. In the two-child case the
  rotation toward the child of higher priority puts the node that is being removed one
  level below the new top of the subtree, the call continues in the subtree that hangs
  from that node, and this subtree has strictly fewer nodes than the one before the
  rotation: the recursion is well-founded on the number of nodes.
\<close>

theorem C9_remove_terminates:
  "(\<exists>t'. TreapMap_removeRecursive t k = Some t')
   \<and> (\<exists>res. TreapSet_removeRecursive u k cnt = Some res)
   \<and> removeRecursive_calls t k \<le> 2 * height t + 1
   \<and> (yp < xp \<longrightarrow>
        rotateRight (Node (Node t1 xk xv xp t2) k nv np (Node c yk yv yp d)) =
          Some (Node t1 xk xv xp (Node t2 k nv np (Node c yk yv yp d)))
        \<and> TreapMap_removeRecursive (Node (Node t1 xk xv xp t2) k nv np (Node c yk yv yp d)) k =
            (case TreapMap_removeRecursive (Node t2 k nv np (Node c yk yv yp d)) k of
               None \<Rightarrow> None | Some b' \<Rightarrow> Some (Node t1 xk xv xp b'))
        \<and> count_nodes (Node t2 k nv np (Node c yk yv yp d)) <
            count_nodes (Node (Node t1 xk xv xp t2) k nv np (Node c yk yv yp d))
        \<and> (xk < k \<longrightarrow>
             depth_of (Node t1 xk xv xp (Node t2 k nv np (Node c yk yv yp d))) k = Some 1))
   \<and> (\<not> yp < xp \<longrightarrow>
        rotateLeft (Node (Node t1 xk xv xp t2) k nv np (Node c yk yv yp d)) =
          Some (Node (Node (Node t1 xk xv xp t2) k nv np c) yk yv yp d)
        \<and> TreapMap_removeRecursive (Node (Node t1 xk xv xp t2) k nv np (Node c yk yv yp d)) k =
            (case TreapMap_removeRecursive (Node (Node t1 xk xv xp t2) k nv np c) k of
               None \<Rightarrow> None | Some a' \<Rightarrow> Some (Node a' yk yv yp d))
        \<and> count_nodes (Node (Node t1 xk xv xp t2) k nv np c) <
            count_nodes (Node (Node t1 xk xv xp t2) k nv np (Node c yk yv yp d))
        \<and> (k < yk \<longrightarrow>
             depth_of (Node (Node (Node t1 xk xv xp t2) k nv np c) yk yv yp d) k = Some 1))"
proof (intro conjI impI)
  show "\<exists>t'. TreapMap_removeRecursive t k = Some t'" by (rule rem_total)
  show "\<exists>res. TreapSet_removeRecursive u k cnt = Some res" by (rule set_rem_total)
  show "removeRecursive_calls t k \<le> 2 * height t + 1" by (rule calls_bound)
next
  assume "yp < xp"
  then show "TreapMap_removeRecursive (Node (Node t1 xk xv xp t2) k nv np (Node c yk yv yp d)) k =
            (case TreapMap_removeRecursive (Node t2 k nv np (Node c yk yv yp d)) k of
               None \<Rightarrow> None | Some b' \<Rightarrow> Some (Node t1 xk xv xp b'))"
    by (rule rem_rot_right)
next
  assume "\<not> yp < xp"
  then show "TreapMap_removeRecursive (Node (Node t1 xk xv xp t2) k nv np (Node c yk yv yp d)) k =
            (case TreapMap_removeRecursive (Node (Node t1 xk xv xp t2) k nv np c) k of
               None \<Rightarrow> None | Some a' \<Rightarrow> Some (Node a' yk yv yp d))"
    by (rule rem_rot_left)
qed simp_all

theorem C9_remove_terminates_witness:
  "(\<exists>t'. TreapMap_removeRecursive
       (Node (Node Nullptr 1 ''a'' 9 Nullptr) 2 ''b'' 10 (Node Nullptr 3 ''c'' 5 Nullptr)) 2 = Some t')
   \<and> removeRecursive_calls
       (Node (Node Nullptr 1 ''a'' 9 Nullptr) 2 ''b'' 10 (Node Nullptr 3 ''c'' 5 Nullptr)) 2 = 2
   \<and> 2 * height (Node (Node Nullptr 1 ''a'' 9 Nullptr) 2 ''b'' 10 (Node Nullptr 3 ''c'' 5 Nullptr)) + 1
        = 5
   \<and> (5::int) < 9 \<and> (1::int) < 2
   \<and> depth_of (Node Nullptr 1 ''a'' 9 (Node Nullptr 2 ''b'' 10 (Node Nullptr 3 ''c'' 5 Nullptr))) 2
        = Some 1
   \<and> count_nodes (Node Nullptr 2 ''b'' 10 (Node Nullptr 3 ''c'' 5 Nullptr)) <
        count_nodes (Node (Node Nullptr 1 ''a'' 9 Nullptr) 2 ''b'' 10 (Node Nullptr 3 ''c'' 5 Nullptr))
   \<and> \<not> (9::int) < 5 \<and> (2::int) < 3
   \<and> rotateLeft (Node (Node Nullptr 1 ''a'' 5 Nullptr) 2 ''b'' 10 (Node Nullptr 3 ''c'' 9 Nullptr)) =
        Some (Node (Node (Node Nullptr 1 ''a'' 5 Nullptr) 2 ''b'' 10 Nullptr) 3 ''c'' 9 Nullptr)
   \<and> depth_of (Node (Node (Node Nullptr 1 ''a'' 5 Nullptr) 2 ''b'' 10 Nullptr) 3 ''c'' 9 Nullptr) 2
        = Some 1
   \<and> count_nodes (Node (Node Nullptr 1 ''a'' 5 Nullptr) 2 ''b'' 10 Nullptr) <
        count_nodes (Node (Node Nullptr 1 ''a'' 5 Nullptr) 2 ''b'' 10 (Node Nullptr 3 ''c'' 9 Nullptr))"
  using C9_remove_terminates[of
      "Node (Node Nullptr 1 ''a'' 9 Nullptr) 2 ''b'' 10 (Node Nullptr 3 ''c'' 5 Nullptr)" 2
      Nullptr 0 5 9 Nullptr 1 "''a''" Nullptr "''b''" 10 Nullptr 3 "''c''" Nullptr]
    C9_remove_terminates[of
      "Node (Node Nullptr 1 ''a'' 5 Nullptr) 2 ''b'' 10 (Node Nullptr 3 ''c'' 9 Nullptr)" 2
      Nullptr 0 9 5 Nullptr 1 "''a''" Nullptr "''b''" 10 Nullptr 3 "''c''" Nullptr]
  by (simp add: rem_simps)

text \<open>
  C10. Two runs of the same sequence of public operations, started with any two states of
  the random generator, both run to the end, and \<open>member\<close>, \<open>size\<close>, \<open>find\<close> and
  \<open>contains\<close> give the same results in the two final states: the results are those of the
  set and of the map that the sequence describes, in which no priority occurs
  (\<open>size()\<close> is the number of keys of that set, reduced to the 32 bits of the counter).
  The sequence is arbitrary, so this holds after every prefix of a run as well.
\<close>

theorem C10_priorities_unobservable:
  "(\<exists>s1 r1 s2 r2. TreapSet_run cs (TreapSet_new, rngA) = Some (s1, r1)
      \<and> TreapSet_run cs (TreapSet_new, rngB) = Some (s2, r2)
      \<and> TreapSet_member s1 k = TreapSet_member s2 k
      \<and> TreapSet_member s1 k = (k \<in> set_contents cs {})
      \<and> TreapSet_size s1 = TreapSet_size s2
      \<and> TreapSet_size s1 = sint (of_nat (card (set_contents cs {})) :: 32 word))
   \<and> (\<exists>m1 r1 m2 r2. TreapMap_run ds (TreapMap_new, rngA) = Some (m1, r1)
      \<and> TreapMap_run ds (TreapMap_new, rngB) = Some (m2, r2)
      \<and> TreapMap_find m1 k d = TreapMap_find m2 k d
      \<and> TreapMap_find m1 k d = (case map_contents ds Map.empty k of None \<Rightarrow> d | Some v \<Rightarrow> v)
      \<and> TreapMap_contains m1 k = TreapMap_contains m2 k
      \<and> TreapMap_contains m1 k = (k \<in> dom (map_contents ds Map.empty)))"
proof
  from TreapSet_reachable[of cs rngA] obtain s1 r1 where
    a: "TreapSet_run cs (TreapSet_new, rngA) = Some (s1, r1)" "TreapSet_invar s1"
      "set (inorder (set_root s1)) = set_contents cs {}" by blast
  from TreapSet_reachable[of cs rngB] obtain s2 r2 where
    b: "TreapSet_run cs (TreapSet_new, rngB) = Some (s2, r2)" "TreapSet_invar s2"
      "set (inorder (set_root s2)) = set_contents cs {}" by blast
  from a(2) b(2) have t: "treap (set_root s1)" "treap (set_root s2)"
    by (simp_all add: TreapSet_invar_def)
  have m: "TreapSet_member s1 k = (k \<in> set_contents cs {})"
    "TreapSet_member s2 k = (k \<in> set_contents cs {})"
    using member_keys[OF t(1), of k] member_keys[OF t(2), of k] a(3) b(3) by simp_all
  have c: "TreapSet_size s1 = sint (of_nat (card (set_contents cs {})) :: 32 word)"
    "TreapSet_size s2 = sint (of_nat (card (set_contents cs {})) :: 32 word)"
    using invar_card[OF a(2)] invar_card[OF b(2)] a(3) b(3) by (simp_all add: TreapSet_size_def)
  from a(1) b(1) m c show "\<exists>s1 r1 s2 r2. TreapSet_run cs (TreapSet_new, rngA) = Some (s1, r1)
      \<and> TreapSet_run cs (TreapSet_new, rngB) = Some (s2, r2)
      \<and> TreapSet_member s1 k = TreapSet_member s2 k
      \<and> TreapSet_member s1 k = (k \<in> set_contents cs {})
      \<and> TreapSet_size s1 = TreapSet_size s2
      \<and> TreapSet_size s1 = sint (of_nat (card (set_contents cs {})) :: 32 word)"
    by (intro exI[of _ s1] exI[of _ r1] exI[of _ s2] exI[of _ r2]) simp
next
  from TreapMap_reachable[of ds rngA] obtain m1 r1 where
    a: "TreapMap_run ds (TreapMap_new, rngA) = Some (m1, r1)" "treap (map_root m1)"
      "map_of (bindings (map_root m1)) = map_contents ds Map.empty" by blast
  from TreapMap_reachable[of ds rngB] obtain m2 r2 where
    b: "TreapMap_run ds (TreapMap_new, rngB) = Some (m2, r2)" "treap (map_root m2)"
      "map_of (bindings (map_root m2)) = map_contents ds Map.empty" by blast
  have f: "TreapMap_find m1 k d = (case map_contents ds Map.empty k of None \<Rightarrow> d | Some v \<Rightarrow> v)"
    "TreapMap_find m2 k d = (case map_contents ds Map.empty k of None \<Rightarrow> d | Some v \<Rightarrow> v)"
    using find_map_of[OF a(2), of k d] find_map_of[OF b(2), of k d] a(3) b(3) by simp_all
  have c: "TreapMap_contains m1 k = (k \<in> dom (map_contents ds Map.empty))"
    "TreapMap_contains m2 k = (k \<in> dom (map_contents ds Map.empty))"
    using contains_map_of[OF a(2), of k] contains_map_of[OF b(2), of k] a(3) b(3) by simp_all
  from a(1) b(1) f c show "\<exists>m1 r1 m2 r2. TreapMap_run ds (TreapMap_new, rngA) = Some (m1, r1)
      \<and> TreapMap_run ds (TreapMap_new, rngB) = Some (m2, r2)
      \<and> TreapMap_find m1 k d = TreapMap_find m2 k d
      \<and> TreapMap_find m1 k d = (case map_contents ds Map.empty k of None \<Rightarrow> d | Some v \<Rightarrow> v)
      \<and> TreapMap_contains m1 k = TreapMap_contains m2 k
      \<and> TreapMap_contains m1 k = (k \<in> dom (map_contents ds Map.empty))"
    by (intro exI[of _ m1] exI[of _ r1] exI[of _ m2] exI[of _ r2]) simp
qed

text \<open>
  The witness runs the insertions of 1, 3, 2 with the priorities 5, 7, 5 and with the
  priorities 9, 1, 4: the two trees differ, and both answer \<open>member(2)\<close> with true and
  \<open>size()\<close> with 3.
\<close>

theorem C10_priorities_unobservable_witness:
  "TreapSet_run [Set_insert 1, Set_insert 3, Set_insert 2] (TreapSet_new, 5 ## 7 ## 5 ## sconst 0) =
     Some (\<lparr>set_root = Node (Node Nullptr 1 () 5 (Node Nullptr 2 () 5 Nullptr)) 3 () 7 Nullptr,
            nodeCount = 3\<rparr>, sconst 0)
   \<and> TreapSet_run [Set_insert 1, Set_insert 3, Set_insert 2] (TreapSet_new, 9 ## 1 ## 4 ## sconst 0) =
     Some (\<lparr>set_root = Node Nullptr 1 () 9 (Node Nullptr 2 () 4 (Node Nullptr 3 () 1 Nullptr)),
            nodeCount = 3\<rparr>, sconst 0)
   \<and> TreapSet_member
        \<lparr>set_root = Node (Node Nullptr 1 () 5 (Node Nullptr 2 () 5 Nullptr)) 3 () 7 Nullptr,
         nodeCount = 3\<rparr> 2
   \<and> TreapSet_member
        \<lparr>set_root = Node Nullptr 1 () 9 (Node Nullptr 2 () 4 (Node Nullptr 3 () 1 Nullptr)),
         nodeCount = 3\<rparr> 2"
proof -
  have a: "TreapSet_run [Set_insert 1, Set_insert 3, Set_insert 2]
       (TreapSet_new, 5 ## 7 ## 5 ## sconst 0) =
     Some (\<lparr>set_root = Node (Node Nullptr 1 () 5 (Node Nullptr 2 () 5 Nullptr)) 3 () 7 Nullptr,
            nodeCount = 3\<rparr>, sconst 0)"
    by (simp add: run_defs)
  have b: "TreapSet_run [Set_insert 1, Set_insert 3, Set_insert 2]
       (TreapSet_new, 9 ## 1 ## 4 ## sconst 0) =
     Some (\<lparr>set_root = Node Nullptr 1 () 9 (Node Nullptr 2 () 4 (Node Nullptr 3 () 1 Nullptr)),
            nodeCount = 3\<rparr>, sconst 0)"
    by (simp add: run_defs)
  from C10_priorities_unobservable[of "[Set_insert 1, Set_insert 3, Set_insert 2]"
      "5 ## 7 ## 5 ## sconst 0" "9 ## 1 ## 4 ## sconst 0" 2 "[]" "()"]
  have "TreapSet_member
        \<lparr>set_root = Node (Node Nullptr 1 () 5 (Node Nullptr 2 () 5 Nullptr)) 3 () 7 Nullptr,
         nodeCount = 3\<rparr> 2
   \<and> TreapSet_member
        \<lparr>set_root = Node Nullptr 1 () 9 (Node Nullptr 2 () 4 (Node Nullptr 3 () 1 Nullptr)),
         nodeCount = 3\<rparr> 2"
    unfolding a b by auto
  with a b show ?thesis by blast
qed

end
